theory Spec2Isabelle
  imports Main "HOL-Library.Multiset"
begin

section \<open>Python text primitives\<close>

text \<open>
  The two tools, \<^verbatim>\<open>keybindings-remove.py\<close> and \<^verbatim>\<open>keybindings-sort.py\<close>, read a
  document as one Python \<^verbatim>\<open>str\<close> and write one. A text is modelled as a \<open>string\<close>
  whose characters are the code points below 256, so each library predicate below is
  the Python one restricted to these code points: \<^verbatim>\<open>str.isspace\<close> (which is also
  the class \<^verbatim>\<open>\s\<close> of \<^verbatim>\<open>re\<close>), the decimal digits of \<^verbatim>\<open>\d\<close>, the wider
  \<^verbatim>\<open>str.isdigit\<close> (it accepts the superscript digits as well) and the line
  boundaries of \<^verbatim>\<open>str.splitlines\<close>.
\<close>

abbreviation dq :: char where "dq \<equiv> CHR 0x22"
abbreviation bsl :: char where "bsl \<equiv> CHR 0x5C"
abbreviation nl :: char where "nl \<equiv> CHR 0x0A"
abbreviation cr :: char where "cr \<equiv> CHR 0x0D"
abbreviation sq :: char where "sq \<equiv> CHR 0x27"

definition py_isspace :: "char \<Rightarrow> bool" where
  "py_isspace c = (c \<in> set [CHR 0x09, CHR 0x0A, CHR 0x0B, CHR 0x0C, CHR 0x0D,
      CHR 0x1C, CHR 0x1D, CHR 0x1E, CHR 0x1F, CHR 0x20, CHR 0x85, CHR 0xA0])"

definition is_linebreak :: "char \<Rightarrow> bool" where
  "is_linebreak c = (c \<in> set [CHR 0x0A, CHR 0x0B, CHR 0x0C, CHR 0x0D,
      CHR 0x1C, CHR 0x1D, CHR 0x1E, CHR 0x85])"

definition is_decimal :: "char \<Rightarrow> bool" where
  "is_decimal c = (c \<in> set ''0123456789'')"

definition py_isdigit_char :: "char \<Rightarrow> bool" where
  "py_isdigit_char c = (is_decimal c \<or> c \<in> set [CHR 0xB2, CHR 0xB3, CHR 0xB9])"

text \<open>\<^verbatim>\<open>s.isdigit()\<close>: every character is a digit and there is at least one.\<close>

definition py_isdigit :: "string \<Rightarrow> bool" where
  "py_isdigit s = (s \<noteq> [] \<and> list_all py_isdigit_char s)"

definition upper_chars :: string where
  "upper_chars = ''ABCDEFGHIJKLMNOPQRSTUVWXYZ'' @
     [CHR 0xC0, CHR 0xC1, CHR 0xC2, CHR 0xC3, CHR 0xC4, CHR 0xC5, CHR 0xC6, CHR 0xC7,
      CHR 0xC8, CHR 0xC9, CHR 0xCA, CHR 0xCB, CHR 0xCC, CHR 0xCD, CHR 0xCE, CHR 0xCF,
      CHR 0xD0, CHR 0xD1, CHR 0xD2, CHR 0xD3, CHR 0xD4, CHR 0xD5, CHR 0xD6,
      CHR 0xD8, CHR 0xD9, CHR 0xDA, CHR 0xDB, CHR 0xDC, CHR 0xDD, CHR 0xDE]"

definition lower_chars :: string where
  "lower_chars = ''abcdefghijklmnopqrstuvwxyz'' @
     [CHR 0xE0, CHR 0xE1, CHR 0xE2, CHR 0xE3, CHR 0xE4, CHR 0xE5, CHR 0xE6, CHR 0xE7,
      CHR 0xE8, CHR 0xE9, CHR 0xEA, CHR 0xEB, CHR 0xEC, CHR 0xED, CHR 0xEE, CHR 0xEF,
      CHR 0xF0, CHR 0xF1, CHR 0xF2, CHR 0xF3, CHR 0xF4, CHR 0xF5, CHR 0xF6,
      CHR 0xF8, CHR 0xF9, CHR 0xFA, CHR 0xFB, CHR 0xFC, CHR 0xFD, CHR 0xFE]"

definition lower_char :: "char \<Rightarrow> char" where
  "lower_char c = (case map_of (zip upper_chars lower_chars) c of Some l \<Rightarrow> l | None \<Rightarrow> c)"

definition py_lower :: "string \<Rightarrow> string" where
  "py_lower s = map lower_char s"

definition py_lstrip :: "string \<Rightarrow> string" where
  "py_lstrip s = dropWhile py_isspace s"

definition py_rstrip :: "string \<Rightarrow> string" where
  "py_rstrip s = rev (dropWhile py_isspace (rev s))"

definition py_strip :: "string \<Rightarrow> string" where
  "py_strip s = py_rstrip (py_lstrip s)"

definition startswith :: "string \<Rightarrow> string \<Rightarrow> bool" where
  "startswith s p = (take (length p) s = p)"

definition endswith :: "string \<Rightarrow> string \<Rightarrow> bool" where
  "endswith s p = (length p \<le> length s \<and> drop (length s - length p) s = p)"

text \<open>\<^verbatim>\<open>sub in s\<close>: \<open>sub\<close> occurs in \<open>s\<close> as a run of consecutive characters.\<close>

fun py_contains :: "string \<Rightarrow> string \<Rightarrow> bool" where
  "py_contains sub [] = (sub = [])"
| "py_contains sub (c # cs) = (startswith (c # cs) sub \<or> py_contains sub cs)"

text \<open>
  \<^verbatim>\<open>s.find(c)\<close> and \<^verbatim>\<open>s.rfind(c)\<close> for a one-character needle; Python's \<open>-1\<close> is
  \<open>None\<close>.
\<close>

fun py_find :: "char \<Rightarrow> string \<Rightarrow> nat option" where
  "py_find c [] = None"
| "py_find c (x # xs) = (if x = c then Some 0 else map_option Suc (py_find c xs))"

definition py_rfind :: "char \<Rightarrow> string \<Rightarrow> nat option" where
  "py_rfind c s = map_option (\<lambda>i. length s - 1 - i) (py_find c (rev s))"

text \<open>
  \<^verbatim>\<open>s.splitlines(keepends)\<close>. A line ends at a line boundary; \<^verbatim>\<open>\r\n\<close> is one
  boundary. The text after the last boundary is a line only when it is not empty.
\<close>

fun splitlines_from :: "bool \<Rightarrow> string \<Rightarrow> string \<Rightarrow> string list" where
  "splitlines_from keepends cur [] = (if cur = [] then [] else [cur])"
| "splitlines_from keepends cur (c # cs) =
     (if c = cr then
        (case cs of
           d # ds \<Rightarrow>
             (if d = nl then (if keepends then cur @ [c, d] else cur) # splitlines_from keepends [] ds
              else (if keepends then cur @ [c] else cur) # splitlines_from keepends [] cs)
         | [] \<Rightarrow> (if keepends then cur @ [c] else cur) # splitlines_from keepends [] cs)
      else if is_linebreak c then (if keepends then cur @ [c] else cur) # splitlines_from keepends [] cs
      else splitlines_from keepends (cur @ [c]) cs)"

definition splitlines :: "bool \<Rightarrow> string \<Rightarrow> string list" where
  "splitlines keepends s = splitlines_from keepends [] s"

section \<open>Boundary extraction\<close>

text \<open>
  \<^verbatim>\<open>extract_preamble_postamble\<close> is the same function in both tools: the text before
  the first \<^verbatim>\<open>[\<close>, the text between it and the last \<^verbatim>\<open>]\<close>, and the text after
  that. When there is no such span the whole text comes back as the third component.
\<close>

definition extract_preamble_postamble :: "string \<Rightarrow> string \<times> string \<times> string" where
  "extract_preamble_postamble text =
     (case (py_find CHR ''['' text, py_rfind CHR '']'' text) of
        (Some start, Some end) \<Rightarrow>
          (if end < start then ([], [], text)
           else (take start text,
                 take (end - (start + 1)) (drop (start + 1) text),
                 drop (end + 1) text))
      | _ \<Rightarrow> ([], [], text))"

section \<open>Segmentation of the array body (removal tool)\<close>

text \<open>
  \<^verbatim>\<open>split_units\<close> walks the lines of the array body. The inner loop that gathers an
  object counts braces line by line; \<open>gather_object\<close> is that loop, returning the
  object text and the lines that are left.
\<close>

fun gather_object :: "int \<Rightarrow> bool \<Rightarrow> string list \<Rightarrow> string \<times> string list" where
  "gather_object depth started [] = ([], [])"
| "gather_object depth started (line # ls) =
     (let started' = (started \<or> CHR ''{'' \<in> set line);
          depth1 = (if CHR ''{'' \<in> set line then depth + int (count_list line CHR ''{'') else depth);
          part = (if started' then line else [])
      in if CHR ''}'' \<in> set line then
           (let depth2 = depth1 - int (count_list line CHR ''}'')
            in if depth2 = 0 then (part, ls)
               else (case gather_object depth2 started' ls of (obj, rest) \<Rightarrow> (part @ obj, rest)))
         else (case gather_object depth1 started' ls of (obj, rest) \<Rightarrow> (part @ obj, rest)))"

definition is_trailing_line :: "string \<Rightarrow> bool" where
  "is_trailing_line line =
     (startswith (py_strip line) '','' \<or> py_strip line = [] \<or>
      startswith (py_strip line) ''//'' \<or> startswith (py_strip line) ''/*'')"

definition no_brace :: "string \<Rightarrow> bool" where
  "no_brace line = (CHR ''{'' \<notin> set line)"

lemma gather_object_length:
  "length (snd (gather_object depth started ls)) \<le> length ls"
proof (induction ls arbitrary: depth started)
  case Nil
  show ?case by simp
next
  case (Cons line rest)
  have "length (snd (gather_object d s rest)) \<le> Suc (length rest)" for d s
    using Cons.IH [of d s] by simp
  then show ?case
    by (simp add: Let_def split_beta)
qed

lemma gather_object_shorter:
  assumes "ls \<noteq> []"
  shows "length (snd (gather_object depth started ls)) < length ls"
proof -
  from assms obtain line rest where ls: "ls = line # rest"
    by (cases ls) auto
  have "length (snd (gather_object d s rest)) < Suc (length rest)" for d s
    using gather_object_length [of d s rest] by simp
  then show ?thesis
    unfolding ls by (simp add: Let_def split_beta)
qed

function units_loop :: "string list \<Rightarrow> (string \<times> string \<times> string) list" where
  "units_loop lines =
     (if dropWhile no_brace lines = [] then []
      else (concat (takeWhile no_brace lines),
            fst (gather_object 0 False (dropWhile no_brace lines)),
            concat (takeWhile is_trailing_line (snd (gather_object 0 False (dropWhile no_brace lines)))))
           # units_loop (dropWhile is_trailing_line (snd (gather_object 0 False (dropWhile no_brace lines)))))"
  by pat_completeness auto
termination
proof (relation "measure length")
  show "wf (measure length)" by simp
next
  fix lines :: "string list"
  assume ne: "dropWhile no_brace lines \<noteq> []"
  let ?rest = "dropWhile no_brace lines"
  let ?rest2 = "snd (gather_object 0 False ?rest)"
  have "length (dropWhile is_trailing_line ?rest2) \<le> length ?rest2"
    by (rule length_dropWhile_le)
  also have "\<dots> < length ?rest"
    using ne by (rule gather_object_shorter)
  also have "\<dots> \<le> length lines"
    by (rule length_dropWhile_le)
  finally show "(dropWhile is_trailing_line ?rest2, lines) \<in> measure length"
    by simp
qed

declare units_loop.simps [simp del]

definition split_units :: "string \<Rightarrow> (string \<times> string \<times> string) list" where
  "split_units array_text = units_loop (splitlines True array_text)"

section \<open>The comment-aware object parser\<close>

subsection \<open>Stripping comments\<close>

text \<open>
  \<^verbatim>\<open>strip_json_comments\<close> substitutes the matches of
  \<^verbatim>\<open>("(?:\\.|[^"\\])*"|//.*?$|/\*.*?\*/)\<close> under \<^verbatim>\<open>DOTALL | MULTILINE\<close>, keeping a match
  that is a string and deleting one that starts with a slash. At each position the
  alternatives are tried in order: a string runs from a quote to the next quote that no
  backslash escapes (\<open>match_string_body\<close>, the text after the opening quote); a line
  comment runs to the next \<^verbatim>\<open>\n\<close> or to the end; a block comment runs to the first
  \<^verbatim>\<open>*/\<close> after its opener (\<open>after_block_end\<close>). Where none matches, the character is
  copied.
\<close>

fun match_string_body :: "string \<Rightarrow> (string \<times> string) option" where
  "match_string_body [] = None"
| "match_string_body (c # cs) =
     (if c = dq then Some ([c], cs)
      else if c = bsl then
        (case cs of
           [] \<Rightarrow> None
         | d # ds \<Rightarrow> map_option (\<lambda>(body, rest). (c # d # body, rest)) (match_string_body ds))
      else map_option (\<lambda>(body, rest). (c # body, rest)) (match_string_body cs))"

fun after_block_end :: "string \<Rightarrow> string option" where
  "after_block_end [] = None"
| "after_block_end [c] = None"
| "after_block_end (c # d # cs) =
     (if c = CHR ''*'' \<and> d = CHR ''/'' then Some cs else after_block_end (d # cs))"

lemma match_string_body_length:
  "match_string_body cs = Some (body, rest) \<Longrightarrow> length rest < length cs"
proof (induction cs arbitrary: body rest rule: match_string_body.induct)
  case 1
  then show ?case by simp
next
  case (2 c cs)
  show ?case
  proof (cases "c = dq")
    case True
    with "2.prems" show ?thesis by simp
  next
    case notq: False
    show ?thesis
    proof (cases "c = bsl")
      case True
      with notq "2.prems" obtain d ds where cs: "cs = d # ds"
        by (cases cs) auto
      with True notq "2.prems" obtain b where "match_string_body ds = Some (b, rest)"
        by auto
      with "2.IH"(1) [OF notq True cs] have "length rest < length ds" by simp
      with cs show ?thesis by simp
    next
      case False
      with notq "2.prems" obtain b where "match_string_body cs = Some (b, rest)"
        by auto
      with "2.IH"(2) [OF notq False] have "length rest < length cs" by simp
      then show ?thesis by simp
    qed
  qed
qed

lemma after_block_end_length:
  "after_block_end cs = Some rest \<Longrightarrow> length rest < length cs"
  by (induction cs arbitrary: rest rule: after_block_end.induct) (auto split: if_splits)

function strip_json_comments :: "string \<Rightarrow> string" where
  "strip_json_comments [] = []"
| "strip_json_comments (c # cs) =
     (if c = dq then
        (case match_string_body cs of
           Some (body, rest) \<Rightarrow> c # body @ strip_json_comments rest
         | None \<Rightarrow> c # strip_json_comments cs)
      else if c = CHR ''/'' \<and> startswith cs ''/'' then
        strip_json_comments (dropWhile (\<lambda>x. x \<noteq> nl) (tl cs))
      else if c = CHR ''/'' \<and> startswith cs ''*'' then
        (case after_block_end (tl cs) of
           Some rest \<Rightarrow> strip_json_comments rest
         | None \<Rightarrow> c # strip_json_comments cs)
      else c # strip_json_comments cs)"
  by pat_completeness auto
termination
proof (relation "measure length")
  show "wf (measure length)" by simp
next
  fix c :: char and cs x2 x y
  assume "match_string_body cs = Some x2" "(x, y) = x2"
  then have "length y < length cs"
    using match_string_body_length [of cs x y] by simp
  then show "(y, c # cs) \<in> measure length" by simp
next
  fix c :: char and cs
  show "(cs, c # cs) \<in> measure length" by simp
next
  fix c :: char and cs
  have "length (dropWhile (\<lambda>x. x \<noteq> nl) (tl cs)) \<le> length (tl cs)"
    by (rule length_dropWhile_le)
  then show "(dropWhile (\<lambda>x. x \<noteq> nl) (tl cs), c # cs) \<in> measure length" by simp
next
  fix c :: char and cs x2
  assume "after_block_end (tl cs) = Some x2"
  then have "length x2 < length (tl cs)" by (rule after_block_end_length)
  then show "(x2, c # cs) \<in> measure length" by simp
next
  fix c :: char and cs
  show "(cs, c # cs) \<in> measure length" by simp
next
  fix c :: char and cs
  show "(cs, c # cs) \<in> measure length" by simp
qed

subsection \<open>Stripping trailing commas\<close>

text \<open>
  \<^verbatim>\<open>strip_trailing_commas\<close> substitutes \<^verbatim>\<open>\1\<close> for every match of
  \<^verbatim>\<open>,\s*([}\]])\<close>: a comma, any white space, and a closing brace or bracket are
  replaced by the brace or bracket. The scan looks at characters only; it has no notion
  of a string literal.
\<close>

function strip_trailing_commas :: "string \<Rightarrow> string" where
  "strip_trailing_commas [] = []"
| "strip_trailing_commas (c # cs) =
     (case dropWhile py_isspace cs of
        [] \<Rightarrow> c # strip_trailing_commas cs
      | b # rest \<Rightarrow>
          (if c = CHR '','' \<and> (b = CHR ''}'' \<or> b = CHR '']'')
           then b # strip_trailing_commas rest
           else c # strip_trailing_commas cs))"
  by pat_completeness auto
termination
proof (relation "measure length")
  show "wf (measure length)" by simp
next
  fix c :: char and cs
  show "(cs, c # cs) \<in> measure length" by simp
next
  fix c :: char and cs b rest
  assume eq: "dropWhile py_isspace cs = b # rest"
  have "length (dropWhile py_isspace cs) \<le> length cs"
    by (rule length_dropWhile_le)
  with eq show "(rest, c # cs) \<in> measure length" by simp
next
  fix c :: char and cs b rest
  show "(cs, c # cs) \<in> measure length" by simp
qed

subsection \<open>Locating the object\<close>

text \<open>
  The removal tool searches \<^verbatim>\<open>\{[\s\S]*?\}\<close>: from the first opening brace to the
  first closing brace after it. The sort tool searches \<^verbatim>\<open>\{.*\}\<close> under
  \<^verbatim>\<open>DOTALL\<close>: from the first opening brace to the last closing brace after it.
\<close>

definition search_object_lazy :: "string \<Rightarrow> string option" where
  "search_object_lazy s =
     (case dropWhile (\<lambda>x. x \<noteq> CHR ''{'') s of
        [] \<Rightarrow> None
      | b # rest \<Rightarrow>
          (if CHR ''}'' \<in> set rest
           then Some (b # takeWhile (\<lambda>x. x \<noteq> CHR ''}'') rest @ ''}'')
           else None))"

definition search_object_greedy :: "string \<Rightarrow> string option" where
  "search_object_greedy s =
     (case dropWhile (\<lambda>x. x \<noteq> CHR ''{'') s of
        [] \<Rightarrow> None
      | b # rest \<Rightarrow>
          (case py_rfind CHR ''}'' rest of
             None \<Rightarrow> None
           | Some i \<Rightarrow> Some (b # take (Suc i) rest)))"

subsection \<open>Parsed values\<close>

text \<open>
  \<^verbatim>\<open>json.loads\<close> belongs to the Python library, not to the repository. The tools
  are therefore modelled over an arbitrary parser \<open>loads\<close>, a function from the
  cleaned text to a value or to \<open>None\<close> (any exception). A value is one of the Python
  objects the library builds; the items of a dictionary are held in insertion order with
  distinct keys; a float carries its own \<^verbatim>\<open>str()\<close> rendering, which this model does
  not compute.
\<close>

datatype json =
    JNull
  | JBool bool
  | JInt int
  | JFloat string
  | JStr string
  | JArr "json list"
  | JObj "(string \<times> json) list"

text \<open>\<^verbatim>\<open>str()\<close> and \<^verbatim>\<open>repr()\<close> of these values.\<close>

definition digit_char :: "nat \<Rightarrow> char" where
  "digit_char n = ''0123456789abcdef'' ! (n mod 16)"

fun dec_digits :: "nat \<Rightarrow> string" where
  "dec_digits n = (if n < 10 then [digit_char n] else dec_digits (n div 10) @ [digit_char (n mod 10)])"

declare dec_digits.simps [simp del]

definition py_str_int :: "int \<Rightarrow> string" where
  "py_str_int i = (if i < 0 then CHR ''-'' # dec_digits (nat (- i)) else dec_digits (nat i))"

definition is_printable :: "char \<Rightarrow> bool" where
  "is_printable c =
     (let n = (of_char c :: nat)
      in 32 \<le> n \<and> n \<noteq> 127 \<and> \<not> (128 \<le> n \<and> n \<le> 160) \<and> n \<noteq> 173)"

definition repr_char :: "char \<Rightarrow> char \<Rightarrow> string" where
  "repr_char quote c =
     (if c = bsl then [bsl, bsl]
      else if c = quote then [bsl, quote]
      else if c = CHR 0x09 then [bsl, CHR ''t'']
      else if c = nl then [bsl, CHR ''n'']
      else if c = cr then [bsl, CHR ''r'']
      else if \<not> is_printable c then
        [bsl, CHR ''x'', digit_char ((of_char c :: nat) div 16), digit_char ((of_char c :: nat) mod 16)]
      else [c])"

definition py_repr_str :: "string \<Rightarrow> string" where
  "py_repr_str s =
     (let quote = (if sq \<in> set s \<and> dq \<notin> set s then dq else sq)
      in quote # concat (map (repr_char quote) s) @ [quote])"

fun join :: "string \<Rightarrow> string list \<Rightarrow> string" where
  "join sep [] = []"
| "join sep [x] = x"
| "join sep (x # y # ys) = x @ sep @ join sep (y # ys)"

fun py_repr :: "json \<Rightarrow> string" where
  "py_repr JNull = ''None''"
| "py_repr (JBool b) = (if b then ''True'' else ''False'')"
| "py_repr (JInt i) = py_str_int i"
| "py_repr (JFloat r) = r"
| "py_repr (JStr s) = py_repr_str s"
| "py_repr (JArr xs) = ''['' @ join '', '' (map py_repr xs) @ '']''"
| "py_repr (JObj items) =
     ''{'' @ join '', '' (map (\<lambda>kv. py_repr_str (fst kv) @ '': '' @ py_repr (snd kv)) items) @ ''}''"

definition py_str :: "json \<Rightarrow> string" where
  "py_str v = (case v of JStr s \<Rightarrow> s | _ \<Rightarrow> py_repr v)"

text \<open>\<^verbatim>\<open>obj.get(name, '')\<close> on a parsed dictionary.\<close>

definition dict_get :: "(string \<times> json) list \<Rightarrow> string \<Rightarrow> json" where
  "dict_get items name = (case map_of items name of Some v \<Rightarrow> v | None \<Rightarrow> JStr [])"

text \<open>\<^verbatim>\<open>d[k] = v\<close>: a new key goes to the end, a known key keeps its place.\<close>

fun dict_set :: "(string \<times> json) list \<Rightarrow> string \<Rightarrow> json \<Rightarrow> (string \<times> json) list" where
  "dict_set [] k v = [(k, v)]"
| "dict_set ((k', v') # items) k v =
     (if k' = k then (k, v) # items else (k', v') # dict_set items k v)"

subsection \<open>A reference parser\<close>

text \<open>
  To evaluate the tools on concrete documents a parser is needed. \<open>json_loads\<close> follows
  the library's decoder on objects, arrays, strings with the one-letter escapes,
  integers and the three literals. It reports a failure for what it does not cover
  (\<^verbatim>\<open>\u\<close> escapes, numbers with a fraction or an exponent, \<^verbatim>\<open>NaN\<close> and
  \<^verbatim>\<open>Infinity\<close>); no document evaluated below contains any of these. The fuel bounds
  the nesting of recursive calls.
\<close>

definition json_ws :: "char \<Rightarrow> bool" where
  "json_ws c = (c \<in> set [CHR 0x20, CHR 0x09, CHR 0x0A, CHR 0x0D])"

definition skip_ws :: "string \<Rightarrow> string" where
  "skip_ws s = dropWhile json_ws s"

definition unescape :: "char \<Rightarrow> char option" where
  "unescape e = map_of [(dq, dq), (bsl, bsl), (CHR ''/'', CHR ''/''), (CHR ''b'', CHR 0x08),
     (CHR ''f'', CHR 0x0C), (CHR ''n'', nl), (CHR ''r'', cr), (CHR ''t'', CHR 0x09)] e"

fun scan_string :: "string \<Rightarrow> (string \<times> string) option" where
  "scan_string [] = None"
| "scan_string (c # cs) =
     (if c = dq then Some ([], cs)
      else if c = bsl then
        (case cs of
           [] \<Rightarrow> None
         | e # es \<Rightarrow>
             (case unescape e of
                None \<Rightarrow> None
              | Some ch \<Rightarrow> map_option (\<lambda>(x, rest). (ch # x, rest)) (scan_string es)))
      else if (of_char c :: nat) < 32 then None
      else map_option (\<lambda>(x, rest). (c # x, rest)) (scan_string cs))"

definition digit_value :: "char \<Rightarrow> int" where
  "digit_value c = int (of_char c) - 48"

text \<open>\<^verbatim>\<open>int(text)\<close> for a text of decimal digits.\<close>

definition py_int :: "string \<Rightarrow> int" where
  "py_int ds = foldl (\<lambda>a c. 10 * a + digit_value c) 0 ds"

definition is_float_tail :: "string \<Rightarrow> bool" where
  "is_float_tail s =
     (case s of
        c # d # ds \<Rightarrow>
          (c = CHR ''.'' \<and> is_decimal d) \<or>
          ((c = CHR ''e'' \<or> c = CHR ''E'') \<and>
           (is_decimal d \<or> ((d = CHR ''+'' \<or> d = CHR ''-'') \<and> ds \<noteq> [] \<and> is_decimal (hd ds))))
      | _ \<Rightarrow> False)"

definition scan_digits :: "string \<Rightarrow> (int \<times> string) option" where
  "scan_digits s =
     (case s of
        [] \<Rightarrow> None
      | d # ds \<Rightarrow>
          (if d = CHR ''0'' then Some (0, ds)
           else if is_decimal d then Some (py_int (takeWhile is_decimal s), dropWhile is_decimal s)
           else None))"

definition scan_number :: "string \<Rightarrow> (json \<times> string) option" where
  "scan_number s =
     (case (if startswith s ''-'' then map_option (\<lambda>(i, rest). (- i, rest)) (scan_digits (tl s))
            else scan_digits s) of
        None \<Rightarrow> None
      | Some (i, rest) \<Rightarrow> (if is_float_tail rest then None else Some (JInt i, rest)))"

fun parse_value :: "nat \<Rightarrow> string \<Rightarrow> (json \<times> string) option"
  and parse_members :: "nat \<Rightarrow> (string \<times> json) list \<Rightarrow> string \<Rightarrow> (json \<times> string) option"
  and parse_elements :: "nat \<Rightarrow> json list \<Rightarrow> string \<Rightarrow> (json \<times> string) option"
where
  "parse_value 0 s = None"
| "parse_value (Suc n) s =
     (if startswith s [dq] then map_option (\<lambda>(x, rest). (JStr x, rest)) (scan_string (tl s))
      else if startswith s ''{'' then
        (if startswith (skip_ws (tl s)) ''}'' then Some (JObj [], tl (skip_ws (tl s)))
         else parse_members n [] (skip_ws (tl s)))
      else if startswith s ''['' then
        (if startswith (skip_ws (tl s)) '']'' then Some (JArr [], tl (skip_ws (tl s)))
         else parse_elements n [] (skip_ws (tl s)))
      else if startswith s ''null'' then Some (JNull, drop 4 s)
      else if startswith s ''true'' then Some (JBool True, drop 4 s)
      else if startswith s ''false'' then Some (JBool False, drop 5 s)
      else scan_number s)"
| "parse_members 0 acc s = None"
| "parse_members (Suc n) acc s =
     (if \<not> startswith s [dq] then None
      else (case scan_string (tl s) of
              None \<Rightarrow> None
            | Some (k, r) \<Rightarrow>
                (if \<not> startswith (skip_ws r) '':'' then None
                 else (case parse_value n (skip_ws (tl (skip_ws r))) of
                         None \<Rightarrow> None
                       | Some (v, r') \<Rightarrow>
                           (if startswith (skip_ws r') ''}''
                            then Some (JObj (dict_set acc k v), tl (skip_ws r'))
                            else if startswith (skip_ws r') '',''
                            then parse_members n (dict_set acc k v) (skip_ws (tl (skip_ws r')))
                            else None)))))"
| "parse_elements 0 acc s = None"
| "parse_elements (Suc n) acc s =
     (case parse_value n s of
        None \<Rightarrow> None
      | Some (v, r) \<Rightarrow>
          (if startswith (skip_ws r) '']''
           then Some (JArr (acc @ [v]), tl (skip_ws r))
           else if startswith (skip_ws r) '',''
           then parse_elements n (acc @ [v]) (skip_ws (tl (skip_ws r)))
           else None))"

definition json_loads :: "string \<Rightarrow> json option" where
  "json_loads s =
     (case parse_value (2 * length s + 2) (skip_ws s) of
        None \<Rightarrow> None
      | Some (v, rest) \<Rightarrow> (if skip_ws rest = [] then Some v else None))"

section \<open>The removal tool\<close>

text \<open>
  \<^verbatim>\<open>should_remove\<close>: the first brace-to-brace span of the unit's object text is
  cleaned and parsed; any exception inside the \<^verbatim>\<open>try\<close> block, also the one raised
  by \<^verbatim>\<open>.get\<close> on a value that is no dictionary, answers \<open>False\<close>.
\<close>

definition should_remove :: "(string \<Rightarrow> json option) \<Rightarrow> string \<Rightarrow> string \<Rightarrow> string \<Rightarrow> bool" where
  "should_remove loads obj_text attr val =
     (case search_object_lazy obj_text of
        None \<Rightarrow> False
      | Some obj_str \<Rightarrow>
          (case loads (strip_trailing_commas (strip_json_comments obj_str)) of
             Some (JObj items) \<Rightarrow> py_contains val (py_str (dict_get items attr))
           | _ \<Rightarrow> False))"

text \<open>
  \<^verbatim>\<open>main\<close> after its argument check: what is written to standard output for the
  input \<open>raw\<close>. \<open>write_units\<close> is the loop over the units.
\<close>

fun write_units :: "(string \<Rightarrow> json option) \<Rightarrow> string \<Rightarrow> string \<Rightarrow> (string \<times> string \<times> string) list \<Rightarrow> string" where
  "write_units loads attr val [] = []"
| "write_units loads attr val ((comments, obj, trailing) # units) =
     (if should_remove loads obj attr val then write_units loads attr val units
      else comments @ obj @ trailing @ write_units loads attr val units)"

definition final_newline :: "string \<Rightarrow> string" where
  "final_newline postamble = (if endswith postamble [nl] then [] else [nl])"

definition remove_main :: "(string \<Rightarrow> json option) \<Rightarrow> string \<Rightarrow> string \<Rightarrow> string \<Rightarrow> string" where
  "remove_main loads attr val raw =
     (case extract_preamble_postamble raw of
        (preamble, array_text, postamble) \<Rightarrow>
          preamble @ ''['' @ write_units loads attr val (split_units array_text) @ '']'' @
          postamble @ final_newline postamble)"

section \<open>The sort tool\<close>

subsection \<open>Segmentation of the array body\<close>

text \<open>
  \<^verbatim>\<open>group_objects_with_comments\<close> is one loop over the lines with the state
  \<open>(groups, comments, buf, depth, in_obj)\<close>. The depth is tested only on the lines that
  follow the one that opens an object; an object still open at the end of the body is
  not added to the groups.
\<close>

definition brace_balance :: "string \<Rightarrow> int" where
  "brace_balance s = int (count_list s CHR ''{'') - int (count_list s CHR ''}'')"

fun group_loop ::
  "(string \<times> string) list \<Rightarrow> string \<Rightarrow> string \<Rightarrow> int \<Rightarrow> bool \<Rightarrow> string list \<Rightarrow>
     (string \<times> string) list \<times> string" where
  "group_loop groups comments buf depth in_obj [] = (groups, comments)"
| "group_loop groups comments buf depth in_obj (line # ls) =
     (if \<not> in_obj then
        (if CHR ''{'' \<in> set (py_strip line)
         then group_loop groups comments line (brace_balance (py_strip line)) True ls
         else group_loop groups (comments @ line) buf depth in_obj ls)
      else
        (if depth + brace_balance line = 0
         then group_loop (groups @ [(comments, buf @ line)]) [] [] (depth + brace_balance line) False ls
         else group_loop groups comments (buf @ line) (depth + brace_balance line) in_obj ls))"

definition group_objects_with_comments :: "string \<Rightarrow> (string \<times> string) list \<times> string" where
  "group_objects_with_comments array_text = group_loop [] [] [] 0 False (splitlines True array_text)"

subsection \<open>Natural keys\<close>

text \<open>
  \<^verbatim>\<open>re.split(r'(\d+)', s)\<close>: the text before the first run of decimal digits, the
  run, and the split of what follows it; a text without a decimal digit is returned
  whole.
\<close>

definition non_decimal :: "char \<Rightarrow> bool" where
  "non_decimal c = (\<not> is_decimal c)"

lemma dropWhile_decimal_shorter:
  assumes "dropWhile non_decimal s \<noteq> []"
  shows "length (dropWhile is_decimal (dropWhile non_decimal s)) < length s"
proof -
  from assms obtain d ds where eq: "dropWhile non_decimal s = d # ds"
    by (cases "dropWhile non_decimal s") auto
  then have "\<not> non_decimal d"
    using hd_dropWhile [of non_decimal s] by simp
  then have "is_decimal d" by (simp add: non_decimal_def)
  with eq have "dropWhile is_decimal (dropWhile non_decimal s) = dropWhile is_decimal ds"
    by simp
  moreover have "length (dropWhile is_decimal ds) \<le> length ds"
    by (rule length_dropWhile_le)
  moreover have "length (d # ds) \<le> length s"
    using length_dropWhile_le [of non_decimal s] eq by simp
  ultimately show ?thesis by simp
qed

function split_digits :: "string \<Rightarrow> string list" where
  "split_digits s =
     (if dropWhile non_decimal s = [] then [s]
      else takeWhile non_decimal s # takeWhile is_decimal (dropWhile non_decimal s)
           # split_digits (dropWhile is_decimal (dropWhile non_decimal s)))"
  by pat_completeness auto
termination
  by (relation "measure length") (auto intro: dropWhile_decimal_shorter)

declare split_digits.simps [simp del]

text \<open>
  The values that make up a sort key, and Python's \<^verbatim>\<open><\<close> on them. Sequences are
  compared at the first position where they differ, a proper prefix is smaller;
  comparing an integer with a string, or a list with a string, raises \<^verbatim>\<open>TypeError\<close>
  (\<open>None\<close>).
\<close>

datatype pyval = PInt int | PStr string | PList "pyval list" | PTuple "pyval list"

fun str_lt :: "string \<Rightarrow> string \<Rightarrow> bool" where
  "str_lt [] [] = False"
| "str_lt [] (y # ys) = True"
| "str_lt (x # xs) [] = False"
| "str_lt (x # xs) (y # ys) = (if x = y then str_lt xs ys else (of_char x :: nat) < of_char y)"

fun py_lt :: "pyval \<Rightarrow> pyval \<Rightarrow> bool option"
  and seq_lt :: "pyval list \<Rightarrow> pyval list \<Rightarrow> bool option"
where
  "py_lt (PInt a) (PInt b) = Some (a < b)"
| "py_lt (PStr a) (PStr b) = Some (str_lt a b)"
| "py_lt (PList a) (PList b) = seq_lt a b"
| "py_lt (PTuple a) (PTuple b) = seq_lt a b"
| "py_lt _ _ = None"
| "seq_lt [] [] = Some False"
| "seq_lt [] (y # ys) = Some True"
| "seq_lt (x # xs) [] = Some False"
| "seq_lt (x # xs) (y # ys) = (if x = y then seq_lt xs ys else py_lt x y)"

text \<open>
  \<^verbatim>\<open>natural_key\<close>: each piece of the split becomes an integer when
  \<^verbatim>\<open>isdigit()\<close> holds of it and its lower-case form otherwise. \<^verbatim>\<open>int()\<close> reads
  decimal digits only, so a piece made of superscript digits raises \<^verbatim>\<open>ValueError\<close>
  (\<open>None\<close>). The interpreter's limit on the number of digits \<^verbatim>\<open>int()\<close> accepts
  (4300 by default since Python 3.11) is not modelled.
\<close>

definition natural_piece :: "string \<Rightarrow> pyval option" where
  "natural_piece text =
     (if py_isdigit text
      then (if list_all is_decimal text then Some (PInt (py_int text)) else None)
      else Some (PStr (py_lower text)))"

definition natural_key :: "string \<Rightarrow> pyval list option" where
  "natural_key s = those (map natural_piece (split_digits s))"

subsection \<open>Sort keys and duplicate pairs\<close>

definition failure_key :: pyval where
  "failure_key = PTuple [PList [], PStr [], PStr []]"

definition extract_sort_keys :: "(string \<Rightarrow> json option) \<Rightarrow> string \<Rightarrow> string \<Rightarrow> pyval" where
  "extract_sort_keys loads obj_text primary =
     (case search_object_greedy obj_text of
        None \<Rightarrow> failure_key
      | Some obj_str \<Rightarrow>
          (case loads (strip_trailing_commas (strip_json_comments obj_str)) of
             Some (JObj items) \<Rightarrow>
               (case (natural_key (py_str (dict_get items ''key'')),
                      natural_key (py_str (dict_get items ''when''))) of
                  (Some k, Some w) \<Rightarrow>
                    (if primary = ''when''
                     then PTuple [PList w, PList k, PStr (py_str (dict_get items ''_comment''))]
                     else PTuple [PList k, PList w, PStr (py_str (dict_get items ''_comment''))])
                | _ \<Rightarrow> failure_key)
           | _ \<Rightarrow> failure_key))"

definition extract_key_when :: "(string \<Rightarrow> json option) \<Rightarrow> string \<Rightarrow> string \<times> string" where
  "extract_key_when loads obj_text =
     (case search_object_greedy obj_text of
        None \<Rightarrow> ([], [])
      | Some obj_str \<Rightarrow>
          (case loads (strip_trailing_commas (strip_json_comments obj_str)) of
             Some (JObj items) \<Rightarrow> (py_str (dict_get items ''key''), py_str (dict_get items ''when''))
           | _ \<Rightarrow> ([], [])))"

subsection \<open>Sorting\<close>

text \<open>
  \<^verbatim>\<open>sorted(groups, key=...)\<close> is the library's stable sort; it compares keys with
  \<^verbatim>\<open><\<close> only. It is modelled by stable insertion: an element is placed after the
  elements whose key is smaller than its own and before all others.
\<close>

definition key_lt :: "pyval \<Rightarrow> pyval \<Rightarrow> bool" where
  "key_lt a b = (py_lt a b = Some True)"

fun insort_by :: "('a \<Rightarrow> pyval) \<Rightarrow> 'a \<Rightarrow> 'a list \<Rightarrow> 'a list" where
  "insort_by f x [] = [x]"
| "insort_by f x (y # ys) = (if key_lt (f y) (f x) then y # insort_by f x ys else x # y # ys)"

definition py_sorted :: "('a \<Rightarrow> pyval) \<Rightarrow> 'a list \<Rightarrow> 'a list" where
  "py_sorted f xs = foldr (insort_by f) xs []"

subsection \<open>Writing the sorted groups\<close>

definition duplicate_marker :: "string \<Rightarrow> string \<Rightarrow> string" where
  "duplicate_marker key_val when_val =
     ''// DUPLICATE key: '' @ py_repr_str key_val @ '' when: '' @ py_repr_str when_val @ [nl]"

text \<open>\<^verbatim>\<open>re.sub(r'^\s*,+', '', after)\<close>: white space and the commas after it, at the start only.\<close>

definition strip_leading_commas :: "string \<Rightarrow> string" where
  "strip_leading_commas after =
     (if startswith (dropWhile py_isspace after) '',''
      then dropWhile (\<lambda>c. c = CHR '','') (dropWhile py_isspace after)
      else after)"

definition obj_out :: "string \<Rightarrow> string" where
  "obj_out obj =
     (case py_rfind CHR ''}'' (py_rstrip obj) of
        None \<Rightarrow> py_rstrip obj
      | Some idx \<Rightarrow>
          take (idx + 1) (py_rstrip obj) @ strip_leading_commas (drop (idx + 1) (py_rstrip obj)))"

text \<open>
  \<^verbatim>\<open>object_has_trailing_comma\<close> walks the lines from the last to the first;
  \<open>trailing_comma_loop\<close> is its loop with the flag \<open>found_closing\<close>.
\<close>

fun trailing_comma_loop :: "bool \<Rightarrow> string list \<Rightarrow> bool" where
  "trailing_comma_loop found_closing [] = False"
| "trailing_comma_loop found_closing (line # ls) =
     (if py_strip line = [] then trailing_comma_loop found_closing ls
      else if \<not> found_closing \<and> endswith (py_strip line) ''}'' then trailing_comma_loop True ls
      else if found_closing then
        (if startswith (py_strip line) '','' then True
         else if \<not> startswith (py_strip line) ''//'' \<and> \<not> startswith (py_strip line) ''/*'' then False
         else trailing_comma_loop found_closing ls)
      else trailing_comma_loop found_closing ls)"

definition object_has_trailing_comma :: "string \<Rightarrow> bool" where
  "object_has_trailing_comma obj_text =
     trailing_comma_loop False (rev (splitlines False (py_rstrip obj_text)))"

text \<open>
  The loop of \<^verbatim>\<open>main\<close> over the sorted groups. Each round writes the leading
  comments (with the duplicate marker when the pair was seen before), the object text,
  and a separator; \<open>sort_pieces\<close> returns these three texts for every round. A group is
  the last one when no group follows it.
\<close>

fun sort_pieces ::
  "(string \<Rightarrow> json option) \<Rightarrow> (string \<times> string) set \<Rightarrow> (string \<times> string) list \<Rightarrow>
     (string \<times> string \<times> string) list" where
  "sort_pieces loads seen [] = []"
| "sort_pieces loads seen ((comments, obj) # rest) =
     ((if extract_key_when loads obj \<in> seen
       then comments @ duplicate_marker (fst (extract_key_when loads obj)) (snd (extract_key_when loads obj))
       else comments),
      obj_out obj,
      (if rest \<noteq> [] \<and> \<not> object_has_trailing_comma (obj_out obj) then '','' else []) @ [nl])
     # sort_pieces loads (insert (extract_key_when loads obj) seen) rest"

definition piece_text :: "string \<times> string \<times> string \<Rightarrow> string" where
  "piece_text p = fst p @ fst (snd p) @ snd (snd p)"

definition sorted_groups :: "(string \<Rightarrow> json option) \<Rightarrow> string \<Rightarrow> (string \<times> string) list \<Rightarrow> (string \<times> string) list" where
  "sorted_groups loads primary groups = py_sorted (\<lambda>pair. extract_sort_keys loads (snd pair) primary) groups"

definition sort_main :: "(string \<Rightarrow> json option) \<Rightarrow> string \<Rightarrow> string \<Rightarrow> string" where
  "sort_main loads primary raw =
     (case extract_preamble_postamble raw of
        (preamble, array_text, postamble) \<Rightarrow>
          (case group_objects_with_comments array_text of
             (groups, trailing_comments) \<Rightarrow>
               preamble @ ''['' @
               concat (map piece_text (sort_pieces loads {} (sorted_groups loads primary groups))) @
               trailing_comments @ '']'' @ postamble @ final_newline postamble))"

section \<open>Notions used in the statements\<close>

text \<open>
  The record the removal tool works with: the dictionary that \<^verbatim>\<open>should_remove\<close>
  obtains inside its \<^verbatim>\<open>try\<close> block, or \<open>None\<close> when the search, the parser or the
  dictionary access fails. A unit parses successfully when this is \<open>Some\<close> record.
\<close>

definition parsed_record :: "(string \<Rightarrow> json option) \<Rightarrow> string \<Rightarrow> (string \<times> json) list option" where
  "parsed_record loads obj_text =
     (case search_object_lazy obj_text of
        None \<Rightarrow> None
      | Some obj_str \<Rightarrow>
          (case loads (strip_trailing_commas (strip_json_comments obj_str)) of
             Some (JObj items) \<Rightarrow> Some items
           | _ \<Rightarrow> None))"

text \<open>The text of a unit of the removal tool as it is written back.\<close>

definition unit_text :: "string \<times> string \<times> string \<Rightarrow> string" where
  "unit_text u = fst u @ fst (snd u) @ snd (snd u)"

definition unit_obj :: "string \<times> string \<times> string \<Rightarrow> string" where
  "unit_obj u = fst (snd u)"

text \<open>
  The pair that the duplicate detection of the sort tool attaches to a group, and the
  marker it appends for that group.
\<close>

definition pair_of :: "(string \<Rightarrow> json option) \<Rightarrow> string \<times> string \<Rightarrow> string \<times> string" where
  "pair_of loads g = extract_key_when loads (snd g)"

definition marker_of :: "(string \<Rightarrow> json option) \<Rightarrow> string \<times> string \<Rightarrow> string" where
  "marker_of loads g = duplicate_marker (fst (pair_of loads g)) (snd (pair_of loads g))"

text \<open>
  String literals. The pattern of \<^verbatim>\<open>strip_json_comments\<close> cuts a text into string
  literals, comments and single characters; \<open>tokens\<close> is that scan with the matches
  kept, and the string literals of a text are the matches of the first alternative, in
  order. A quote that the scan meets outside a comment and that opens no complete
  literal is unterminated.
\<close>

datatype token = Str string | Comment string | Other char

function tokens :: "string \<Rightarrow> token list" where
  "tokens [] = []"
| "tokens (c # cs) =
     (if c = dq then
        (case match_string_body cs of
           Some (body, rest) \<Rightarrow> Str (c # body) # tokens rest
         | None \<Rightarrow> Other c # tokens cs)
      else if c = CHR ''/'' \<and> startswith cs ''/'' then
        Comment (c # takeWhile (\<lambda>x. x \<noteq> nl) cs) # tokens (dropWhile (\<lambda>x. x \<noteq> nl) (tl cs))
      else if c = CHR ''/'' \<and> startswith cs ''*'' then
        (case after_block_end (tl cs) of
           Some rest \<Rightarrow> Comment (take (Suc (length cs) - length rest) (c # cs)) # tokens rest
         | None \<Rightarrow> Other c # tokens cs)
      else Other c # tokens cs)"
  by pat_completeness auto
termination
proof (relation "measure length")
  show "wf (measure length)" by simp
next
  fix c :: char and cs x2 x y
  assume "match_string_body cs = Some x2" "(x, y) = x2"
  then have "length y < length cs"
    using match_string_body_length [of cs x y] by simp
  then show "(y, c # cs) \<in> measure length" by simp
next
  fix c :: char and cs
  show "(cs, c # cs) \<in> measure length" by simp
next
  fix c :: char and cs
  have "length (dropWhile (\<lambda>x. x \<noteq> nl) (tl cs)) \<le> length (tl cs)"
    by (rule length_dropWhile_le)
  then show "(dropWhile (\<lambda>x. x \<noteq> nl) (tl cs), c # cs) \<in> measure length" by simp
next
  fix c :: char and cs x2
  assume "after_block_end (tl cs) = Some x2"
  then have "length x2 < length (tl cs)" by (rule after_block_end_length)
  then show "(x2, c # cs) \<in> measure length" by simp
next
  fix c :: char and cs
  show "(cs, c # cs) \<in> measure length" by simp
next
  fix c :: char and cs
  show "(cs, c # cs) \<in> measure length" by simp
qed

fun literal_of :: "token \<Rightarrow> string list" where
  "literal_of (Str s) = [s]"
| "literal_of (Comment s) = []"
| "literal_of (Other c) = []"

definition string_literals :: "string \<Rightarrow> string list" where
  "string_literals t = concat (map literal_of (tokens t))"

definition unterminated_quote :: "string \<Rightarrow> bool" where
  "unterminated_quote t = (Other dq \<in> set (tokens t))"

text \<open>
  A text contains a match of \<^verbatim>\<open>,\s*([}\]])\<close> when some comma in it is followed, after
  optional white space, by a closing brace or bracket.
\<close>

definition closes_after_space :: "string \<Rightarrow> bool" where
  "closes_after_space cs =
     (case dropWhile py_isspace cs of [] \<Rightarrow> False | b # rest \<Rightarrow> b = CHR ''}'' \<or> b = CHR '']'')"

fun comma_before_closer :: "string \<Rightarrow> bool" where
  "comma_before_closer [] = False"
| "comma_before_closer (c # cs) = ((c = CHR '','' \<and> closes_after_space cs) \<or> comma_before_closer cs)"

fun is_comment :: "token \<Rightarrow> bool" where
  "is_comment (Comment s) = True"
| "is_comment (Str s) = False"
| "is_comment (Other c) = False"


fun token_ok :: "token \<Rightarrow> bool" where
  "token_ok (Str s) = (\<not> comma_before_closer s)"
| "token_ok (Comment s) = False"
| "token_ok (Other c) = (c \<noteq> dq)"


text \<open>
  The shape of a natural key: strings and integers in turn, a string first and last. A
  sort key is the key of a failure or a triple of two natural keys and a string.
\<close>

fun alternating :: "pyval list \<Rightarrow> bool" where
  "alternating [PStr s] = True"
| "alternating (PStr s # PInt n # rest) = alternating rest"
| "alternating ks = False"

definition is_sort_key :: "pyval \<Rightarrow> bool" where
  "is_sort_key k =
     (k = failure_key \<or> (\<exists>a b c. alternating a \<and> alternating b \<and> k = PTuple [PList a, PList b, PStr c]))"

section \<open>Documents used as examples\<close>

definition quoted :: "string \<Rightarrow> string" where
  "quoted s = dq # s @ [dq]"

definition unlines :: "string list \<Rightarrow> string" where
  "unlines ls = concat (map (\<lambda>l. l @ [nl]) ls)"

text \<open>One object, followed by a block comment of two lines.\<close>

definition doc_block_comment :: string where
  "doc_block_comment = unlines
     [''['',
      ''  {'',
      ''    '' @ quoted ''key'' @ '': '' @ quoted ''a'',
      ''  }'',
      ''  /* end'',
      ''     of list */'',
      '']'']"

text \<open>Two objects whose texts are no JSON (the colon is missing).\<close>

definition doc_two_unparsed :: string where
  "doc_two_unparsed = unlines
     [''['',
      ''  {'',
      ''    '' @ quoted ''key'' @ '' '' @ quoted ''a'',
      ''  },'',
      ''  {'',
      ''    '' @ quoted ''key'' @ '' '' @ quoted ''b'',
      ''  }'',
      '']'']"

text \<open>Two objects, the first written with a leading comma before its second member.\<close>

definition doc_leading_comma :: string where
  "doc_leading_comma = unlines
     [''['',
      ''  {'',
      ''    '' @ quoted ''key'' @ '': '' @ quoted ''a'',
      ''    , '' @ quoted ''command'' @ '': '' @ quoted ''x'',
      ''  },'',
      ''  {'',
      ''    '' @ quoted ''key'' @ '': '' @ quoted ''b'',
      ''  }'',
      '']'']"

text \<open>Two objects with distinct keys, the first followed by a line comment.\<close>

definition doc_line_comment :: string where
  "doc_line_comment = unlines
     [''['',
      ''  {'',
      ''    '' @ quoted ''key'' @ '': '' @ quoted ''a'',
      ''  }, // first'',
      ''  {'',
      ''    '' @ quoted ''key'' @ '': '' @ quoted ''b'',
      ''  }'',
      '']'']"

definition doc_line_comment_once :: string where
  "doc_line_comment_once = unlines
     [''['',
      ''  {'',
      ''    '' @ quoted ''key'' @ '': '' @ quoted ''a'',
      ''  } // first,'',
      ''  {'',
      ''    '' @ quoted ''key'' @ '': '' @ quoted ''b'',
      ''  }'',
      '']'']"

definition doc_line_comment_twice :: string where
  "doc_line_comment_twice = unlines
     [''['',
      ''  {'',
      ''    '' @ quoted ''key'' @ '': '' @ quoted ''a'',
      ''  } // first,,'',
      ''  {'',
      ''    '' @ quoted ''key'' @ '': '' @ quoted ''b'',
      ''  }'',
      '']'']"

text \<open>
  Two objects with the keys \<^verbatim>\<open>a2\<close> and \<^verbatim>\<open>a10\<close> followed by a superscript two
  (code point B2).
\<close>

definition doc_superscript :: string where
  "doc_superscript = unlines
     [''['',
      ''  {'',
      ''    '' @ quoted ''key'' @ '': '' @ quoted ''a2'',
      ''  },'',
      ''  {'',
      ''    '' @ quoted ''key'' @ '': '' @ quoted (''a10'' @ [CHR 0xB2]),
      ''  }'',
      '']'']"

text \<open>An array body with one object that parses and one that does not.\<close>

definition body_parsed_and_unparsed :: string where
  "body_parsed_and_unparsed = [nl] @ unlines
     [''  {'',
      ''    '' @ quoted ''key'' @ '': '' @ quoted ''a'',
      ''  },'',
      ''  {'',
      ''    '' @ quoted ''key'' @ '' '' @ quoted ''b'',
      ''  }'']"

definition obj_unparsed :: string where
  "obj_unparsed = unlines [''  {'', ''    '' @ quoted ''key'' @ '' '' @ quoted ''b'', ''  }'']"

text \<open>The array body of \<open>doc_leading_comma\<close>.\<close>

definition body_leading_comma :: string where
  "body_leading_comma = [nl] @ unlines
     [''  {'',
      ''    '' @ quoted ''key'' @ '': '' @ quoted ''a'',
      ''    , '' @ quoted ''command'' @ '': '' @ quoted ''x'',
      ''  },'',
      ''  {'',
      ''    '' @ quoted ''key'' @ '': '' @ quoted ''b'',
      ''  }'']"

text \<open>Three groups: two with the same key and condition, one with another key.\<close>

definition group_b_first :: "string \<times> string" where
  "group_b_first = ([nl], unlines [''  {'', ''    '' @ quoted ''key'' @ '': '' @ quoted ''b'' @ '','',
       ''    '' @ quoted ''when'' @ '': '' @ quoted ''w'', ''  },''])"

definition group_a :: "string \<times> string" where
  "group_a = ([], unlines [''  {'', ''    '' @ quoted ''key'' @ '': '' @ quoted ''a'', ''  },''])"

definition group_b_second :: "string \<times> string" where
  "group_b_second = (''  // again'' @ [nl], unlines [''  {'', ''    '' @ quoted ''key'' @ '': '' @ quoted ''b'' @ '','',
       ''    '' @ quoted ''when'' @ '': '' @ quoted ''w'', ''  }''])"

lemmas group_defs = group_b_first_def group_a_def group_b_second_def

text \<open>
  Object texts: a string value that ends with a comma and a closing brace; an object
  with comments and trailing commas whose strings contain comment markers and a comma;
  a text whose first quote is never closed.
\<close>

definition obj_comma_in_string :: string where
  "obj_comma_in_string = ''{'' @ quoted ''a'' @ '': '' @ quoted '',}'' @ ''}''"

definition obj_with_comments :: string where
  "obj_with_comments = unlines
     [''{'',
      ''  '' @ quoted ''key'' @ '': '' @ quoted ''a//b/*c'' @ '', /* note */'',
      ''  '' @ quoted ''when'' @ '': '' @ quoted ''x, y'' @ '', // tail'',
      ''}'']"

definition obj_quote_after_comment :: string where
  "obj_quote_after_comment = [dq, bsl] @ ''/**/'' @ [bsl, dq]"

section \<open>Evaluation on concrete texts\<close>

text \<open>
  The parser's equations are stated for \<open>Suc\<close>; these forms let the simplifier run it
  with a numeral for the fuel.
\<close>

lemma parse_value_pos:
  "0 < n \<Longrightarrow> parse_value n s =
     (if startswith s [dq] then map_option (\<lambda>(x, rest). (JStr x, rest)) (scan_string (tl s))
      else if startswith s ''{'' then
        (if startswith (skip_ws (tl s)) ''}'' then Some (JObj [], tl (skip_ws (tl s)))
         else parse_members (n - 1) [] (skip_ws (tl s)))
      else if startswith s ''['' then
        (if startswith (skip_ws (tl s)) '']'' then Some (JArr [], tl (skip_ws (tl s)))
         else parse_elements (n - 1) [] (skip_ws (tl s)))
      else if startswith s ''null'' then Some (JNull, drop 4 s)
      else if startswith s ''true'' then Some (JBool True, drop 4 s)
      else if startswith s ''false'' then Some (JBool False, drop 5 s)
      else scan_number s)"
  by (cases n; hypsubst_thin) (simp_all cong: option.case_cong if_cong prod.case_cong)

lemma parse_members_pos:
  "0 < n \<Longrightarrow> parse_members n acc s =
     (if \<not> startswith s [dq] then None
      else (case scan_string (tl s) of
              None \<Rightarrow> None
            | Some (k, r) \<Rightarrow>
                (if \<not> startswith (skip_ws r) '':'' then None
                 else (case parse_value (n - 1) (skip_ws (tl (skip_ws r))) of
                         None \<Rightarrow> None
                       | Some (v, r') \<Rightarrow>
                           (if startswith (skip_ws r') ''}''
                            then Some (JObj (dict_set acc k v), tl (skip_ws r'))
                            else if startswith (skip_ws r') '',''
                            then parse_members (n - 1) (dict_set acc k v) (skip_ws (tl (skip_ws r')))
                            else None)))))"
  by (cases n; hypsubst_thin) (simp_all cong: option.case_cong if_cong prod.case_cong)

lemma parse_elements_pos:
  "0 < n \<Longrightarrow> parse_elements n acc s =
     (case parse_value (n - 1) s of
        None \<Rightarrow> None
      | Some (v, r) \<Rightarrow>
          (if startswith (skip_ws r) '']''
           then Some (JArr (acc @ [v]), tl (skip_ws r))
           else if startswith (skip_ws r) '',''
           then parse_elements (n - 1) (acc @ [v]) (skip_ws (tl (skip_ws r)))
           else None))"
  by (cases n; hypsubst_thin) (simp_all cong: option.case_cong if_cong prod.case_cong)

lemmas text_eval =
  py_isspace_def is_linebreak_def is_decimal_def py_isdigit_char_def py_isdigit_def
  py_lstrip_def py_rstrip_def py_strip_def startswith_def endswith_def py_rfind_def
  splitlines_def quoted_def unlines_def Let_def

lemmas json_eval =
  json_loads_def skip_ws_def json_ws_def parse_value_pos parse_members_pos parse_elements_pos
  scan_number_def scan_digits_def is_float_tail_def py_int_def digit_value_def unescape_def
  dict_get_def py_str_def

lemmas remove_eval =
  remove_main_def extract_preamble_postamble_def split_units_def units_loop.simps no_brace_def
  is_trailing_line_def should_remove_def search_object_lazy_def final_newline_def

lemmas sort_eval =
  sort_main_def extract_preamble_postamble_def group_objects_with_comments_def brace_balance_def
  extract_sort_keys_def extract_key_when_def search_object_greedy_def failure_key_def
  natural_key_def natural_piece_def split_digits.simps non_decimal_def py_lower_def
  lower_char_def upper_chars_def lower_chars_def sorted_groups_def py_sorted_def key_lt_def
  piece_text_def obj_out_def strip_leading_commas_def object_has_trailing_comma_def
  duplicate_marker_def py_repr_str_def repr_char_def is_printable_def final_newline_def

lemmas token_eval = string_literals_def unterminated_quote_def closes_after_space_def


section \<open>Documents without an array\<close>

lemma py_find_None_iff: "py_find c s = None \<longleftrightarrow> c \<notin> set s"
  by (induction s) auto

lemma py_rfind_None_iff: "py_rfind c s = None \<longleftrightarrow> c \<notin> set s"
  by (simp add: py_rfind_def py_find_None_iff)

lemma extract_no_array:
  assumes "CHR ''['' \<notin> set text \<or> CHR '']'' \<notin> set text \<or>
     (\<exists>s e. py_find CHR ''['' text = Some s \<and> py_rfind CHR '']'' text = Some e \<and> e < s)"
  shows "extract_preamble_postamble text = ([], [], text)"
proof -
  consider (a) "py_find CHR ''['' text = None" | (b) "py_rfind CHR '']'' text = None"
    | (c) s e where "py_find CHR ''['' text = Some s" "py_rfind CHR '']'' text = Some e" "e < s"
    using assms by (auto simp: py_find_None_iff py_rfind_None_iff)
  then show ?thesis
  proof cases
    case a
    then show ?thesis by (simp add: extract_preamble_postamble_def)
  next
    case b
    then show ?thesis by (simp add: extract_preamble_postamble_def split: option.splits)
  next
    case c
    then show ?thesis by (simp add: extract_preamble_postamble_def)
  qed
qed

lemma split_units_Nil: "split_units [] = []"
  by (simp add: split_units_def splitlines_def units_loop.simps)

lemma group_objects_Nil: "group_objects_with_comments [] = ([], [])"
  by (simp add: group_objects_with_comments_def splitlines_def)

lemma remove_main_no_array:
  assumes "extract_preamble_postamble text = ([], [], text)"
  shows "remove_main loads attr val text = ''[]'' @ text @ final_newline text"
  using assms by (simp add: remove_main_def split_units_Nil)

lemma sort_main_no_array:
  assumes "extract_preamble_postamble text = ([], [], text)"
  shows "sort_main loads primary text = ''[]'' @ text @ final_newline text"
  using assms
  by (simp add: sort_main_def group_objects_Nil sorted_groups_def py_sorted_def)

text \<open>
  Claim C1. A text without a bracket span (no \<^verbatim>\<open>[\<close>, or no \<^verbatim>\<open>]\<close>, or the last
  \<^verbatim>\<open>]\<close> before the first \<^verbatim>\<open>[\<close>) is to come back unchanged from both tools.
  \<^verbatim>\<open>extract_preamble_postamble\<close> hands such a text back whole as the postamble, with
  an empty array text, and no unit is found in it; but \<^verbatim>\<open>main\<close> of both tools
  writes \<^verbatim>\<open>[\<close> and \<^verbatim>\<open>]\<close> whatever the extraction returned. So the output is
  the bracket pair, then the text (then a newline when the text does not end with one),
  and it is never the text itself.
\<close>

theorem no_array_output_has_brackets:
  assumes "CHR ''['' \<notin> set text \<or> CHR '']'' \<notin> set text \<or>
     (\<exists>s e. py_find CHR ''['' text = Some s \<and> py_rfind CHR '']'' text = Some e \<and> e < s)"
  shows "split_units (fst (snd (extract_preamble_postamble text))) = [] \<and>
         fst (group_objects_with_comments (fst (snd (extract_preamble_postamble text)))) = [] \<and>
         remove_main loads attr val text = ''[]'' @ text @ final_newline text \<and>
         sort_main loads primary text = ''[]'' @ text @ final_newline text \<and>
         remove_main loads attr val text \<noteq> text \<and>
         sort_main loads primary text \<noteq> text"
proof -
  from assms have e: "extract_preamble_postamble text = ([], [], text)"
    by (rule extract_no_array)
  have r: "remove_main loads attr val text = ''[]'' @ text @ final_newline text"
    using e by (rule remove_main_no_array)
  have s: "sort_main loads primary text = ''[]'' @ text @ final_newline text"
    using e by (rule sort_main_no_array)
  have n: "''[]'' @ text @ final_newline text \<noteq> text"
  proof
    assume "''[]'' @ text @ final_newline text = text"
    then have "length (''[]'' @ text @ final_newline text) = length text" by simp
    then show False by simp
  qed
  show ?thesis
    using e r s n by (simp add: split_units_Nil group_objects_Nil)
qed

text \<open>
  The text \<^verbatim>\<open>abc\<close> with its newline has no bracket and ends with a newline, so
  the bracket pair is the only difference: both tools answer \<^verbatim>\<open>[]abc\<close> and the
  newline.
\<close>

theorem no_array_output_has_brackets_witness:
  "CHR ''['' \<notin> set (''abc'' @ [nl]) \<and>
   split_units (fst (snd (extract_preamble_postamble (''abc'' @ [nl])))) = [] \<and>
   fst (group_objects_with_comments (fst (snd (extract_preamble_postamble (''abc'' @ [nl]))))) = [] \<and>
   remove_main json_loads ''_gigachad'' ''gigachad'' (''abc'' @ [nl]) = ''[]abc'' @ [nl] \<and>
   sort_main json_loads ''key'' (''abc'' @ [nl]) = ''[]abc'' @ [nl] \<and>
   remove_main json_loads ''_gigachad'' ''gigachad'' (''abc'' @ [nl]) \<noteq> ''abc'' @ [nl] \<and>
   sort_main json_loads ''key'' (''abc'' @ [nl]) \<noteq> ''abc'' @ [nl]"
proof -
  have h: "CHR ''['' \<notin> set (''abc'' @ [nl])" by simp
  then have h': "CHR ''['' \<notin> set (''abc'' @ [nl]) \<or> CHR '']'' \<notin> set (''abc'' @ [nl]) \<or>
     (\<exists>s e. py_find CHR ''['' (''abc'' @ [nl]) = Some s \<and>
            py_rfind CHR '']'' (''abc'' @ [nl]) = Some e \<and> e < s)"
    by (rule disjI1)
  have f: "final_newline (''abc'' @ [nl]) = []"
    by (simp add: final_newline_def text_eval)
  from no_array_output_has_brackets [OF h', of json_loads "''_gigachad''" "''gigachad''" "''key''"]
  have "split_units (fst (snd (extract_preamble_postamble (''abc'' @ [nl])))) = [] \<and>
   fst (group_objects_with_comments (fst (snd (extract_preamble_postamble (''abc'' @ [nl]))))) = [] \<and>
   remove_main json_loads ''_gigachad'' ''gigachad'' (''abc'' @ [nl]) = ''[]abc'' @ [nl] \<and>
   sort_main json_loads ''key'' (''abc'' @ [nl]) = ''[]abc'' @ [nl] \<and>
   remove_main json_loads ''_gigachad'' ''gigachad'' (''abc'' @ [nl]) \<noteq> ''abc'' @ [nl] \<and>
   sort_main json_loads ''key'' (''abc'' @ [nl]) \<noteq> ''abc'' @ [nl]"
    unfolding f by simp
  with h show ?thesis by (rule conjI)
qed

section \<open>String literals under the two stripping steps\<close>

subsection \<open>The scan\<close>

lemma match_string_body_append:
  "match_string_body cs = Some (body, rest) \<Longrightarrow> match_string_body (body @ x) = Some (body, x)"
proof (induction cs arbitrary: body rest rule: match_string_body.induct)
  case 1
  then show ?case by simp
next
  case (2 c cs)
  show ?case
  proof (cases "c = dq")
    case True
    with "2.prems" show ?thesis by auto
  next
    case notq: False
    show ?thesis
    proof (cases "c = bsl")
      case True
      with notq "2.prems" obtain d ds where cs: "cs = d # ds"
        by (cases cs) auto
      with True notq "2.prems" obtain b where b: "match_string_body ds = Some (b, rest)" "body = c # d # b"
        by auto
      from "2.IH"(1) [OF notq True cs b(1)] have "match_string_body (b @ x) = Some (b, x)" .
      with b(2) True notq show ?thesis by simp
    next
      case False
      with notq "2.prems" obtain b where b: "match_string_body cs = Some (b, rest)" "body = c # b"
        by auto
      from "2.IH"(2) [OF notq False b(1)] have "match_string_body (b @ x) = Some (b, x)" .
      with b(2) False notq show ?thesis by simp
    qed
  qed
qed

lemma match_string_body_split:
  "match_string_body cs = Some (body, rest) \<Longrightarrow> cs = body @ rest \<and> body \<noteq> [] \<and> last body = dq"
proof (induction cs arbitrary: body rest rule: match_string_body.induct)
  case 1
  then show ?case by simp
next
  case (2 c cs)
  show ?case
  proof (cases "c = dq")
    case True
    with "2.prems" show ?thesis by auto
  next
    case notq: False
    show ?thesis
    proof (cases "c = bsl")
      case True
      with notq "2.prems" obtain d ds where cs: "cs = d # ds"
        by (cases cs) auto
      with True notq "2.prems" obtain b where b: "match_string_body ds = Some (b, rest)" "body = c # d # b"
        by auto
      from "2.IH"(1) [OF notq True cs b(1)] have "ds = b @ rest \<and> b \<noteq> [] \<and> last b = dq" .
      with b(2) cs show ?thesis by simp
    next
      case False
      with notq "2.prems" obtain b where b: "match_string_body cs = Some (b, rest)" "body = c # b"
        by auto
      from "2.IH"(2) [OF notq False b(1)] have "cs = b @ rest \<and> b \<noteq> [] \<and> last b = dq" .
      with b(2) show ?thesis by simp
    qed
  qed
qed

lemma tokens_literal:
  assumes "match_string_body cs = Some (body, rest)"
  shows "tokens (dq # body @ x) = Str (dq # body) # tokens x"
  using match_string_body_append [OF assms, of x] by simp


lemma after_block_end_Cons:
  "c \<noteq> CHR ''*'' \<Longrightarrow> after_block_end (c # cs) = after_block_end cs"
  by (cases cs) auto

lemma after_block_end_star:
  "\<not> startswith cs ''/'' \<Longrightarrow> after_block_end (CHR ''*'' # cs) = after_block_end cs"
  by (cases cs) (auto simp: startswith_def)

lemma after_block_end_suffix:
  "after_block_end (a @ b) = None \<Longrightarrow> after_block_end b = None"
proof (induction a)
  case Nil
  then show ?case by simp
next
  case (Cons c a)
  show ?case
  proof (cases "a @ b")
    case Nil
    then show ?thesis by simp
  next
    case (Cons d ds)
    with Cons.prems have "after_block_end (a @ b) = None"
      by (auto split: if_splits)
    then show ?thesis by (rule Cons.IH)
  qed
qed

lemma after_block_end_tl:
  "after_block_end (c # cs) = None \<Longrightarrow> after_block_end cs = None"
  using after_block_end_suffix [of "[c]" cs] by simp

lemma after_block_end_prefix:
  "after_block_end (a @ b) = None \<Longrightarrow> after_block_end a = None"
proof (induction a rule: after_block_end.induct)
  case 1
  then show ?case by simp
next
  case (2 c)
  then show ?case by simp
next
  case (3 c d cs)
  then show ?case by (auto split: if_splits)
qed

lemma after_block_end_append:
  assumes "after_block_end a = None" "after_block_end b = None" "a \<noteq> []" "last a \<noteq> CHR ''*''"
  shows "after_block_end (a @ b) = None"
  using assms
proof (induction a rule: after_block_end.induct)
  case 1
  then show ?case by simp
next
  case (2 c)
  then show ?case by (simp add: after_block_end_Cons)
next
  case (3 c d cs)
  then show ?case by (auto split: if_splits)
qed


lemma strip_json_comments_head:
  assumes "c \<noteq> CHR ''/''"
  shows "\<exists>r. strip_json_comments (c # cs) = c # r"
  using assms by (auto split: option.splits)

lemma strip_json_comments_startswith:
  assumes "startswith (strip_json_comments cs) [d]" "d = CHR ''/'' \<or> d = CHR ''*''"
    "\<not> startswith cs ''/''"
  shows "startswith cs [d]"
proof (cases cs)
  case Nil
  with assms show ?thesis by (simp add: startswith_def)
next
  case (Cons c cs')
  with assms(3) have "c \<noteq> CHR ''/''" by (simp add: startswith_def)
  then obtain r where "strip_json_comments (c # cs') = c # r"
    using strip_json_comments_head by blast
  with assms(1) Cons show ?thesis by (simp add: startswith_def)
qed

lemma strip_json_comments_plain:
  "c \<noteq> dq \<Longrightarrow> \<not> (c = CHR ''/'' \<and> startswith cs ''/'') \<Longrightarrow>
   \<not> (c = CHR ''/'' \<and> startswith cs ''*'') \<Longrightarrow>
   strip_json_comments (c # cs) = c # strip_json_comments cs"
  by auto

lemma tokens_plain:
  "c \<noteq> dq \<Longrightarrow> \<not> (c = CHR ''/'' \<and> startswith cs ''/'') \<Longrightarrow>
   \<not> (c = CHR ''/'' \<and> startswith cs ''*'') \<Longrightarrow>
   tokens (c # cs) = Other c # tokens cs"
  by auto

lemma no_block_end_strip_json_comments:
  "after_block_end r = None \<Longrightarrow> after_block_end (strip_json_comments r) = None"
proof (induction r rule: strip_json_comments.induct)
  case 1
  then show ?case by simp
next
  case (2 c cs)
  note prem = "2.prems"
  from prem have tl_none: "after_block_end cs = None" by (rule after_block_end_tl)
  show ?case
  proof (cases "c = dq")
    case True
    show ?thesis
    proof (cases "match_string_body cs")
      case None
      with True "2.IH"(1) tl_none show ?thesis by (simp add: after_block_end_Cons)
    next
      case (Some p)
      obtain body rest where p: "p = (body, rest)" by (cases p)
      from Some p have m: "match_string_body cs = Some (body, rest)" by simp
      from match_string_body_split [OF m] have cs: "cs = body @ rest" "body \<noteq> []" "last body = dq"
        by auto
      from prem cs have "after_block_end ((c # body) @ rest) = None" by simp
      then have a: "after_block_end (c # body) = None" and b: "after_block_end rest = None"
        by (rule after_block_end_prefix, rule after_block_end_suffix)
      from "2.IH"(2) [OF True m refl b] have "after_block_end (strip_json_comments rest) = None" .
      with a cs have "after_block_end ((c # body) @ strip_json_comments rest) = None"
        by (intro after_block_end_append) auto
      with True m show ?thesis by simp
    qed
  next
    case notq: False
    show ?thesis
    proof (cases "c = CHR ''/'' \<and> startswith cs ''/''")
      case True
      from tl_none have "after_block_end (tl cs) = None"
        by (cases cs) (auto dest: after_block_end_tl)
      then have "after_block_end (takeWhile (\<lambda>x. x \<noteq> nl) (tl cs) @ dropWhile (\<lambda>x. x \<noteq> nl) (tl cs)) = None"
        by simp
      then have "after_block_end (dropWhile (\<lambda>x. x \<noteq> nl) (tl cs)) = None"
        by (rule after_block_end_suffix)
      with "2.IH"(3) [OF notq True] notq True show ?thesis by simp
    next
      case notline: False
      show ?thesis
      proof (cases "c = CHR ''/'' \<and> startswith cs ''*''")
        case True
        from tl_none have "after_block_end (tl cs) = None"
          by (cases cs) (auto dest: after_block_end_tl)
        then have none: "after_block_end (tl cs) = None" .
        from "2.IH"(4) [OF notq notline True none tl_none]
        have "after_block_end (strip_json_comments cs) = None" .
        moreover have "strip_json_comments (c # cs) = c # strip_json_comments cs"
          using notq notline True none by simp
        moreover have "c \<noteq> CHR ''*''" using True by simp
        ultimately show ?thesis by (simp add: after_block_end_Cons del: strip_json_comments.simps)
      next
        case False
        from "2.IH"(6) [OF notq notline False tl_none]
        have ih: "after_block_end (strip_json_comments cs) = None" .
        note eq = strip_json_comments_plain [OF notq notline False]
        show ?thesis
        proof (cases "c = CHR ''*''")
          case True
          with prem have "\<not> startswith cs ''/''"
            by (cases cs) (auto simp: startswith_def)
          then have "\<not> startswith (strip_json_comments cs) ''/''"
            using strip_json_comments_startswith [of cs "CHR ''/''"] by blast
          with ih True show ?thesis
            unfolding eq by (simp add: after_block_end_star)
        next
          case notstar: False
          with ih show ?thesis
            unfolding eq by (simp add: after_block_end_Cons)
        qed
      qed
    qed
  qed
qed

lemma tokens_plain_Cons:
  assumes "c \<noteq> dq" "c = CHR ''/'' \<longrightarrow> \<not> startswith x ''/'' \<and> (startswith x ''*'' \<longrightarrow> after_block_end (tl x) = None)"
  shows "tokens (c # x) = Other c # tokens x"
  using assms by (auto split: option.splits)

lemma tokens_strip_json_comments:
  "\<not> unterminated_quote t \<Longrightarrow>
   tokens (strip_json_comments t) = filter (\<lambda>tk. \<not> is_comment tk) (tokens t)"
proof (induction t rule: strip_json_comments.induct)
  case 1
  then show ?case by simp
next
  case (2 c cs)
  note prem = "2.prems"
  show ?case
  proof (cases "c = dq")
    case True
    show ?thesis
    proof (cases "match_string_body cs")
      case None
      with True prem show ?thesis by (simp add: unterminated_quote_def)
    next
      case (Some p)
      obtain body rest where p: "p = (body, rest)" by (cases p)
      from Some p have m: "match_string_body cs = Some (body, rest)" by simp
      from prem True m have "\<not> unterminated_quote rest"
        by (simp add: unterminated_quote_def)
      from "2.IH"(2) [OF True m refl this]
      have "tokens (strip_json_comments rest) = filter (\<lambda>tk. \<not> is_comment tk) (tokens rest)" .
      with True m tokens_literal [OF m, of "strip_json_comments rest"] show ?thesis by simp
    qed
  next
    case notq: False
    show ?thesis
    proof (cases "c = CHR ''/'' \<and> startswith cs ''/''")
      case True
      with prem notq have "\<not> unterminated_quote (dropWhile (\<lambda>x. x \<noteq> nl) (tl cs))"
        by (simp add: unterminated_quote_def)
      from "2.IH"(3) [OF notq True this] notq True show ?thesis by simp
    next
      case notline: False
      show ?thesis
      proof (cases "c = CHR ''/'' \<and> startswith cs ''*''")
        case True
        show ?thesis
        proof (cases "after_block_end (tl cs)")
          case None
          from prem notq notline True None have "\<not> unterminated_quote cs"
            by (simp add: unterminated_quote_def)
          from "2.IH"(4) [OF notq notline True None this]
          have ih: "tokens (strip_json_comments cs) = filter (\<lambda>tk. \<not> is_comment tk) (tokens cs)" .
          from True obtain r where cs: "cs = CHR ''*'' # r"
            by (cases cs) (auto simp: startswith_def)
          then have sc: "strip_json_comments cs = CHR ''*'' # strip_json_comments r"
            by simp
          from None cs have "after_block_end (strip_json_comments r) = None"
            by (simp add: no_block_end_strip_json_comments)
          with sc have "tokens (c # strip_json_comments cs) = Other c # tokens (strip_json_comments cs)"
            by (intro tokens_plain_Cons) (auto simp: notq startswith_def)
          with ih notq notline True None show ?thesis by simp
        next
          case (Some rest)
          with prem notq notline True have "\<not> unterminated_quote rest"
            by (simp add: unterminated_quote_def)
          from "2.IH"(5) [OF notq notline True Some this] notq notline True Some
          show ?thesis by simp
        qed
      next
        case False
        from prem notq notline False have "\<not> unterminated_quote cs"
          by (simp add: unterminated_quote_def)
        from "2.IH"(6) [OF notq notline False this]
        have ih: "tokens (strip_json_comments cs) = filter (\<lambda>tk. \<not> is_comment tk) (tokens cs)" .
        have "tokens (c # strip_json_comments cs) = Other c # tokens (strip_json_comments cs)"
        proof (rule tokens_plain_Cons [OF notq], intro impI conjI)
          assume c: "c = CHR ''/''"
          with notline have ns: "\<not> startswith cs ''/''" by simp
          then show "\<not> startswith (strip_json_comments cs) ''/''"
            using strip_json_comments_startswith [of cs "CHR ''/''"] by blast
          assume "startswith (strip_json_comments cs) ''*''"
          then have "startswith cs ''*''"
            using strip_json_comments_startswith [of cs "CHR ''*''"] ns by blast
          with c False show "after_block_end (tl (strip_json_comments cs)) = None" by simp
        qed
        moreover have "strip_json_comments (c # cs) = c # strip_json_comments cs"
          using notq notline False by auto
        moreover have "tokens (c # cs) = Other c # tokens cs"
          using notq notline False by auto
        ultimately show ?thesis using ih by (simp only: filter.simps is_comment.simps not_False_eq_True if_True)
      qed
    qed
  qed
qed


subsection \<open>Trailing commas\<close>

lemma strip_trailing_commas_match:
  assumes "dropWhile py_isspace cs = b # rest" "b = CHR ''}'' \<or> b = CHR '']''"
  shows "strip_trailing_commas (CHR '','' # cs) = b # strip_trailing_commas rest"
  using assms by auto

lemma strip_trailing_commas_nomatch:
  assumes "\<not> (c = CHR '','' \<and> closes_after_space cs)"
  shows "strip_trailing_commas (c # cs) = c # strip_trailing_commas cs"
proof (cases "dropWhile py_isspace cs")
  case Nil
  then show ?thesis by (simp del: dropWhile_eq_Nil_conv)
next
  case (Cons b rest)
  with assms show ?thesis
    by (auto simp: closes_after_space_def simp del: dropWhile_eq_Nil_conv)
qed

lemma closes_after_space_cases:
  assumes "closes_after_space cs"
  obtains b rest where "dropWhile py_isspace cs = b # rest" "b = CHR ''}'' \<or> b = CHR '']''"
  using assms by (auto simp: closes_after_space_def split: list.splits)

lemma strip_trailing_commas_startswith:
  assumes "startswith (strip_trailing_commas cs) [d]" "d \<noteq> CHR ''}''" "d \<noteq> CHR '']''"
  shows "startswith cs [d]"
proof (cases cs)
  case Nil
  with assms show ?thesis by (simp add: startswith_def)
next
  case (Cons c cs')
  show ?thesis
  proof (cases "c = CHR '','' \<and> closes_after_space cs'")
    case True
    then obtain b rest where "dropWhile py_isspace cs' = b # rest" "b = CHR ''}'' \<or> b = CHR '']''"
      using closes_after_space_cases by blast
    with True Cons have "strip_trailing_commas cs = b # strip_trailing_commas rest"
      using strip_trailing_commas_match by simp
    with assms \<open>b = CHR ''}'' \<or> b = CHR '']''\<close> show ?thesis
      by (auto simp: startswith_def)
  next
    case False
    then have "strip_trailing_commas (c # cs') = c # strip_trailing_commas cs'"
      by (rule strip_trailing_commas_nomatch)
    with assms(1) Cons show ?thesis by (simp add: startswith_def)
  qed
qed

lemma dropWhile_suffix_block_end:
  assumes "after_block_end cs = None"
  shows "after_block_end (dropWhile P cs) = None"
proof -
  have "after_block_end (takeWhile P cs @ dropWhile P cs) = None"
    using assms by simp
  then show ?thesis by (rule after_block_end_suffix)
qed

lemma no_block_end_strip_trailing_commas:
  "after_block_end r = None \<Longrightarrow> after_block_end (strip_trailing_commas r) = None"
proof (induction r rule: length_induct)
  case (1 r)
  note IH = "1.IH" and prem = "1.prems"
  show ?case
  proof (cases r)
    case Nil
    then show ?thesis by simp
  next
    case (Cons c cs)
    from prem Cons have tl_none: "after_block_end cs = None"
      using after_block_end_tl by blast
    show ?thesis
    proof (cases "c = CHR '','' \<and> closes_after_space cs")
      case True
      then obtain b rest where d: "dropWhile py_isspace cs = b # rest" "b = CHR ''}'' \<or> b = CHR '']''"
        using closes_after_space_cases by blast
      have "after_block_end (dropWhile py_isspace cs) = None"
        using tl_none by (rule dropWhile_suffix_block_end)
      with d have rest_none: "after_block_end rest = None"
        using after_block_end_tl [of b rest] by simp
      have "length (dropWhile py_isspace cs) \<le> length cs" by (rule length_dropWhile_le)
      with d Cons have "length rest < length r" by simp
      with IH rest_none have "after_block_end (strip_trailing_commas rest) = None" by blast
      moreover from True d Cons have "strip_trailing_commas r = b # strip_trailing_commas rest"
        using strip_trailing_commas_match by simp
      moreover from d have "b \<noteq> CHR ''*''" by auto
      ultimately show ?thesis by (simp add: after_block_end_Cons)
    next
      case False
      then have eq: "strip_trailing_commas (c # cs) = c # strip_trailing_commas cs"
        by (rule strip_trailing_commas_nomatch)
      from IH tl_none Cons have ih: "after_block_end (strip_trailing_commas cs) = None" by simp
      show ?thesis
      proof (cases "c = CHR ''*''")
        case True
        with prem Cons have "\<not> startswith cs ''/''"
          by (cases cs) (auto simp: startswith_def)
        then have "\<not> startswith (strip_trailing_commas cs) ''/''"
          using strip_trailing_commas_startswith [of cs "CHR ''/''"] by auto
        with ih True Cons eq show ?thesis by (simp add: after_block_end_star)
      next
        case notstar: False
        with ih Cons eq show ?thesis by (simp add: after_block_end_Cons)
      qed
    qed
  qed
qed

lemma closes_after_space_quote:
  "closes_after_space (a @ dq # r) = closes_after_space (a @ [dq])"
  by (induction a) (auto simp: closes_after_space_def py_isspace_def)

lemma strip_trailing_commas_literal:
  assumes "\<not> comma_before_closer s" "s \<noteq> []" "last s = dq"
  shows "strip_trailing_commas (s @ r) = s @ strip_trailing_commas r"
  using assms
proof (induction s)
  case Nil
  then show ?case by simp
next
  case (Cons c s)
  show ?case
  proof (cases "s = []")
    case True
    with Cons.prems have "c = dq" by simp
    then have "\<not> (c = CHR '','' \<and> closes_after_space r)" by simp
    then have "strip_trailing_commas (c # r) = c # strip_trailing_commas r"
      by (rule strip_trailing_commas_nomatch)
    with True show ?thesis by simp
  next
    case False
    with Cons.prems have last: "last s = dq" and nc: "\<not> comma_before_closer s"
      and here: "\<not> (c = CHR '','' \<and> closes_after_space s)"
      by auto
    from False last have "s = butlast s @ [dq]"
      using append_butlast_last_id [of s] by simp
    then obtain a where s: "s = a @ [dq]" ..
    have "closes_after_space (s @ r) = closes_after_space s"
      unfolding s using closes_after_space_quote [of a r] by simp
    with here have "\<not> (c = CHR '','' \<and> closes_after_space (s @ r))" by simp
    then have "strip_trailing_commas (c # s @ r) = c # strip_trailing_commas (s @ r)"
      by (rule strip_trailing_commas_nomatch)
    with Cons.IH [OF nc False last] show ?thesis by simp
  qed
qed

lemma tokens_space_prefix:
  "list_all py_isspace w \<Longrightarrow> tokens (w @ x) = map Other w @ tokens x"
  by (induction w) (auto simp: py_isspace_def)

lemma string_literals_Other: "tokens u = Other c # tokens v \<Longrightarrow> string_literals u = string_literals v"
  by (simp add: string_literals_def)

lemma string_literals_strip_trailing_commas:
  "list_all token_ok (tokens u) \<Longrightarrow>
   string_literals (strip_trailing_commas u) = string_literals u"
proof (induction u rule: length_induct)
  case (1 u)
  note IH = "1.IH" and ok = "1.prems"
  show ?case
  proof (cases u)
    case Nil
    then show ?thesis by simp
  next
    case (Cons c cs)
    show ?thesis
    proof (cases "c = dq")
      case True
      show ?thesis
      proof (cases "match_string_body cs")
        case None
        with True Cons ok show ?thesis by simp
      next
        case (Some p)
        obtain body rest where p: "p = (body, rest)" by (cases p)
        from Some p have m: "match_string_body cs = Some (body, rest)" by simp
        from match_string_body_split [OF m] have cs: "cs = body @ rest" "body \<noteq> []" "last body = dq"
          by auto
        from ok Cons True m have lit: "\<not> comma_before_closer (dq # body)"
          and ok_rest: "list_all token_ok (tokens rest)"
          by auto
        from cs Cons have "length rest < length u" by simp
        with IH ok_rest have ih: "string_literals (strip_trailing_commas rest) = string_literals rest"
          by blast
        have "strip_trailing_commas ((dq # body) @ rest) = (dq # body) @ strip_trailing_commas rest"
          using lit cs by (intro strip_trailing_commas_literal) auto
        with Cons True cs have "strip_trailing_commas u = dq # body @ strip_trailing_commas rest"
          by simp
        then have "tokens (strip_trailing_commas u) = Str (dq # body) # tokens (strip_trailing_commas rest)"
          using tokens_literal [OF m] by simp
        moreover from Cons True m have "tokens u = Str (dq # body) # tokens rest" by simp
        ultimately show ?thesis using ih by (simp add: string_literals_def)
      qed
    next
      case notq: False
      from ok Cons notq have notline: "\<not> (c = CHR ''/'' \<and> startswith cs ''/'')"
        by auto
      from ok Cons notq notline
      have unclosed: "c = CHR ''/'' \<and> startswith cs ''*'' \<longrightarrow> after_block_end (tl cs) = None"
        by (auto split: option.splits)
      from notq notline unclosed Cons have tu: "tokens u = Other c # tokens cs"
        by (auto split: option.splits)
      with ok have ok_cs: "list_all token_ok (tokens cs)" by simp
      show ?thesis
      proof (cases "c = CHR '','' \<and> closes_after_space cs")
        case True
        then obtain b rest where d: "dropWhile py_isspace cs = b # rest" "b = CHR ''}'' \<or> b = CHR '']''"
          using closes_after_space_cases by blast
        have split: "cs = takeWhile py_isspace cs @ b # rest"
          using d(1) takeWhile_dropWhile_id [of py_isspace cs] by simp
        have ws: "list_all py_isspace (takeWhile py_isspace cs)"
          using set_takeWhileD [of _ py_isspace cs] by (auto simp: list_all_iff)
        from d(2) have tb: "tokens (b # rest) = Other b # tokens rest" by auto
        have tcs: "tokens cs = map Other (takeWhile py_isspace cs) @ Other b # tokens rest"
          using tokens_space_prefix [OF ws, of "b # rest"] split tb by simp
        with ok_cs have ok_rest: "list_all token_ok (tokens rest)" by simp
        from tcs have lit_cs: "string_literals cs = string_literals rest"
          by (simp add: string_literals_def comp_def)
        have "length (dropWhile py_isspace cs) \<le> length cs" by (rule length_dropWhile_le)
        with d Cons have "length rest < length u" by simp
        with IH ok_rest have ih: "string_literals (strip_trailing_commas rest) = string_literals rest"
          by blast
        from True d Cons have "strip_trailing_commas u = b # strip_trailing_commas rest"
          using strip_trailing_commas_match by simp
        moreover from d(2) have "tokens (b # strip_trailing_commas rest) = Other b # tokens (strip_trailing_commas rest)"
          by auto
        ultimately have "string_literals (strip_trailing_commas u) = string_literals (strip_trailing_commas rest)"
          by (simp add: string_literals_def)
        with ih lit_cs tu show ?thesis by (simp add: string_literals_def)
      next
        case False
        then have eq: "strip_trailing_commas (c # cs) = c # strip_trailing_commas cs"
          by (rule strip_trailing_commas_nomatch)
        from IH ok_cs Cons have ih: "string_literals (strip_trailing_commas cs) = string_literals cs"
          by simp
        have "tokens (c # strip_trailing_commas cs) = Other c # tokens (strip_trailing_commas cs)"
        proof (rule tokens_plain_Cons [OF notq], intro impI conjI)
          assume c: "c = CHR ''/''"
          with notline have ns: "\<not> startswith cs ''/''" by simp
          then show "\<not> startswith (strip_trailing_commas cs) ''/''"
            using strip_trailing_commas_startswith [of cs "CHR ''/''"] by auto
          assume "startswith (strip_trailing_commas cs) ''*''"
          then have st: "startswith cs ''*''"
            using strip_trailing_commas_startswith [of cs "CHR ''*''"] by auto
          then obtain r where r: "cs = CHR ''*'' # r"
            by (cases cs) (auto simp: startswith_def)
          with c unclosed st have "after_block_end r = None" by simp
          then have "after_block_end (strip_trailing_commas r) = None"
            by (rule no_block_end_strip_trailing_commas)
          moreover have "strip_trailing_commas (CHR ''*'' # r) = CHR ''*'' # strip_trailing_commas r"
            by (rule strip_trailing_commas_nomatch) simp
          ultimately show "after_block_end (tl (strip_trailing_commas cs)) = None"
            using r by simp
        qed
        with eq Cons ih tu show ?thesis by (simp add: string_literals_def)
      qed
    qed
  qed
qed

lemma string_literals_filter:
  "concat (map literal_of (filter (\<lambda>tk. \<not> is_comment tk) ts)) = concat (map literal_of ts)"
proof (induction ts)
  case Nil
  show ?case by simp
next
  case (Cons tk ts)
  then show ?case by (cases tk) simp_all
qed

lemma literal_in_string_literals:
  "Str s \<in> set (tokens t) \<Longrightarrow> s \<in> set (string_literals t)"
  by (force simp: string_literals_def)

text \<open>
  Claim C3, as stated: stripping comments and trailing commas never alters a string
  literal. \<^verbatim>\<open>strip_trailing_commas\<close> looks at characters only, so it also rewrites a
  comma that stands before a closing brace inside a string: the literal \<^verbatim>\<open>",}"\<close>
  becomes \<^verbatim>\<open>"}"\<close>.
\<close>

theorem comma_inside_string_is_stripped:
  "\<not> unterminated_quote obj_comma_in_string \<and>
   strip_trailing_commas (strip_json_comments obj_comma_in_string) =
     ''{'' @ quoted ''a'' @ '': '' @ quoted ''}'' @ ''}'' \<and>
   string_literals obj_comma_in_string = [quoted ''a'', quoted '',}''] \<and>
   string_literals (strip_trailing_commas (strip_json_comments obj_comma_in_string)) =
     [quoted ''a'', quoted ''}'']"
  by (simp add: obj_comma_in_string_def text_eval token_eval)

text \<open>
  Claim C3, amended. In a text without an unterminated quote the string literals are the
  same, one by one, before and after comment stripping, whatever comment markers they
  contain; and when no string literal contains a comma followed by optional white space
  and a closing brace or bracket, they are also the same after the trailing-comma step.
\<close>

theorem string_literals_survive_stripping:
  assumes "\<not> unterminated_quote t"
  shows "string_literals (strip_json_comments t) = string_literals t \<and>
         ((\<forall>s \<in> set (string_literals t). \<not> comma_before_closer s) \<longrightarrow>
          string_literals (strip_trailing_commas (strip_json_comments t)) = string_literals t)"
proof -
  have tk: "tokens (strip_json_comments t) = filter (\<lambda>tk. \<not> is_comment tk) (tokens t)"
    using assms by (rule tokens_strip_json_comments)
  then have a: "string_literals (strip_json_comments t) = string_literals t"
    by (simp add: string_literals_def string_literals_filter)
  have b: "string_literals (strip_trailing_commas (strip_json_comments t)) = string_literals t"
    if lit: "\<forall>s \<in> set (string_literals t). \<not> comma_before_closer s"
  proof -
    have "token_ok tk" if "tk \<in> set (tokens t)" "\<not> is_comment tk" for tk
    proof (cases tk)
      case (Str s)
      with that lit literal_in_string_literals show ?thesis by auto
    next
      case (Comment s)
      with that show ?thesis by simp
    next
      case (Other c)
      with that assms show ?thesis by (auto simp: unterminated_quote_def)
    qed
    then have "list_all token_ok (tokens (strip_json_comments t))"
      unfolding tk by (simp add: list_all_iff)
    then have "string_literals (strip_trailing_commas (strip_json_comments t)) =
        string_literals (strip_json_comments t)"
      by (rule string_literals_strip_trailing_commas)
    with a show ?thesis by simp
  qed
  from a b show ?thesis by blast
qed

theorem string_literals_survive_stripping_witness:
  "\<not> unterminated_quote obj_with_comments \<and>
   list_all (\<lambda>s. \<not> comma_before_closer s) (string_literals obj_with_comments) \<and>
   string_literals obj_with_comments = [quoted ''key'', quoted ''a//b/*c'', quoted ''when'', quoted ''x, y''] \<and>
   string_literals (strip_json_comments obj_with_comments) = string_literals obj_with_comments \<and>
   string_literals (strip_trailing_commas (strip_json_comments obj_with_comments)) =
     string_literals obj_with_comments"
proof -
  have l: "string_literals obj_with_comments =
      [quoted ''key'', quoted ''a//b/*c'', quoted ''when'', quoted ''x, y'']"
    by (simp add: obj_with_comments_def text_eval token_eval)
  have h1: "\<not> unterminated_quote obj_with_comments"
    by (simp add: obj_with_comments_def text_eval token_eval)
  have h2: "list_all (\<lambda>s. \<not> comma_before_closer s) (string_literals obj_with_comments)"
    unfolding l by (simp add: text_eval token_eval)
  then have h2': "\<forall>s \<in> set (string_literals obj_with_comments). \<not> comma_before_closer s"
    by (simp only: list_all_iff)
  note inst = string_literals_survive_stripping [OF h1]
  from inst have c1: "string_literals (strip_json_comments obj_with_comments) =
      string_literals obj_with_comments"
    by (rule conjunct1)
  from inst [THEN conjunct2, THEN mp, OF h2']
  have c2: "string_literals (strip_trailing_commas (strip_json_comments obj_with_comments)) =
      string_literals obj_with_comments" .
  from h1 h2 l c1 c2 show ?thesis by (intro conjI)
qed

text \<open>The cleaned text of that object, and why the quotes have to be terminated.\<close>

lemma obj_with_comments_cleaned:
  "strip_trailing_commas (strip_json_comments obj_with_comments) =
     unlines
       [''{'',
        ''  '' @ quoted ''key'' @ '': '' @ quoted ''a//b/*c'' @ '', '',
        ''  '' @ quoted ''when'' @ '': '' @ quoted ''x, y'' @ ''}'']"
  by (simp add: obj_with_comments_def text_eval)


lemma literal_appears_after_unterminated_quote:
  "unterminated_quote obj_quote_after_comment \<and>
   string_literals obj_quote_after_comment = [] \<and>
   string_literals (strip_json_comments obj_quote_after_comment) = [[dq, bsl, bsl, dq]]"
  by (simp add: obj_quote_after_comment_def text_eval token_eval)


section \<open>Removal: which units are dropped\<close>

lemma write_units_filter:
  "write_units loads attr val units =
     concat (map unit_text (filter (\<lambda>u. \<not> should_remove loads (unit_obj u) attr val) units))"
  by (induction units) (auto simp: unit_text_def unit_obj_def)

lemma should_remove_iff:
  "should_remove loads obj attr val \<longleftrightarrow>
     (\<exists>items. parsed_record loads obj = Some items \<and> py_contains val (py_str (dict_get items attr)))"
  by (auto simp: should_remove_def parsed_record_def split: option.splits json.splits)

text \<open>
  Claim C4. The removal tool drops a unit if and only if its object text parses to a
  record and the string form of the record's value for the attribute contains the search
  string; an absent attribute counts as the empty string; a unit that does not parse is
  kept; the units that are kept are written in their order, each with its text as read.
  Parsing is what \<^verbatim>\<open>should_remove\<close> does: see \<open>parsed_record\<close>.
\<close>

theorem removal_drops_exactly_matching_units:
  "(should_remove loads obj attr val \<longleftrightarrow>
      (\<exists>items. parsed_record loads obj = Some items \<and>
         py_contains val (py_str (dict_get items attr)))) \<and>
   (map_of items attr = None \<longrightarrow> py_str (dict_get items attr) = []) \<and>
   (parsed_record loads obj = None \<longrightarrow> \<not> should_remove loads obj attr val) \<and>
   remove_main loads attr val raw =
     (case extract_preamble_postamble raw of
        (preamble, array_text, postamble) \<Rightarrow>
          preamble @ ''['' @
          concat (map unit_text
            (filter (\<lambda>u. \<not> should_remove loads (unit_obj u) attr val) (split_units array_text))) @
          '']'' @ postamble @ final_newline postamble)"
proof (intro conjI)
  show "should_remove loads obj attr val \<longleftrightarrow>
      (\<exists>items. parsed_record loads obj = Some items \<and>
         py_contains val (py_str (dict_get items attr)))"
    by (rule should_remove_iff)
  show "map_of items attr = None \<longrightarrow> py_str (dict_get items attr) = []"
    by (simp add: dict_get_def py_str_def)
  show "parsed_record loads obj = None \<longrightarrow> \<not> should_remove loads obj attr val"
    by (simp add: should_remove_iff)
  show "remove_main loads attr val raw =
     (case extract_preamble_postamble raw of
        (preamble, array_text, postamble) \<Rightarrow>
          preamble @ ''['' @
          concat (map unit_text
            (filter (\<lambda>u. \<not> should_remove loads (unit_obj u) attr val) (split_units array_text))) @
          '']'' @ postamble @ final_newline postamble)"
    by (simp add: remove_main_def write_units_filter split: prod.splits)
qed

theorem removal_drops_exactly_matching_units_witness:
  "map_of ([] :: (string \<times> json) list) ''key'' = None \<and>
   py_str (dict_get [] ''key'') = [] \<and>
   parsed_record json_loads obj_unparsed = None \<and>
   \<not> should_remove json_loads obj_unparsed ''key'' ''a'' \<and>
   remove_main json_loads ''key'' ''a'' (''['' @ body_parsed_and_unparsed @ '']'' @ [nl]) =
     ''['' @ obj_unparsed @ '']'' @ [nl]"
proof -
  note inst = removal_drops_exactly_matching_units
    [of json_loads obj_unparsed "''key''" "''a''" "[]" "''['' @ body_parsed_and_unparsed @ '']'' @ [nl]"]
  have h1: "map_of ([] :: (string \<times> json) list) ''key'' = None" by simp
  have h2: "parsed_record json_loads obj_unparsed = None"
    by (simp add: parsed_record_def obj_unparsed_def text_eval json_eval remove_eval)
  have c1: "py_str (dict_get [] ''key'') = []"
    by (rule inst [THEN conjunct2, THEN conjunct1, THEN mp, OF h1])
  have c2: "\<not> should_remove json_loads obj_unparsed ''key'' ''a''"
    by (rule inst [THEN conjunct2, THEN conjunct2, THEN conjunct1, THEN mp, OF h2])
  have e: "extract_preamble_postamble (''['' @ body_parsed_and_unparsed @ '']'' @ [nl]) =
     ([], body_parsed_and_unparsed, [nl])"
    by (simp add: body_parsed_and_unparsed_def text_eval remove_eval)
  have u: "split_units body_parsed_and_unparsed =
     [([nl], unlines [''  {'', ''    '' @ quoted ''key'' @ '': '' @ quoted ''a'', ''  },''], []),
      ([], obj_unparsed, [])]"
    by (simp add: body_parsed_and_unparsed_def obj_unparsed_def text_eval remove_eval)
  have r: "should_remove json_loads (unlines [''  {'', ''    '' @ quoted ''key'' @ '': '' @ quoted ''a'', ''  },'']) ''key'' ''a''"
    by (simp add: text_eval json_eval remove_eval)
  have "remove_main json_loads ''key'' ''a'' (''['' @ body_parsed_and_unparsed @ '']'' @ [nl]) =
     ''['' @ obj_unparsed @ '']'' @ [nl]"
    unfolding inst [THEN conjunct2, THEN conjunct2, THEN conjunct2] e u
    using r c2 by (simp add: u unit_text_def unit_obj_def final_newline_def endswith_def)
  with h1 c1 h2 c2 show ?thesis by (intro conjI)
qed

lemma py_contains_empty: "py_contains [] s"
  by (cases s) (simp_all add: startswith_def)

lemma write_units_all_removed:
  "(\<forall>u \<in> set units. should_remove loads (unit_obj u) attr val) \<Longrightarrow> write_units loads attr val units = []"
  by (induction units) (auto simp: unit_obj_def)

text \<open>
  Claim C10. When every unit of the document parses, removal with the empty search string
  drops every unit: what is written is the preamble, an empty bracket pair, the
  postamble and the final newline.
\<close>

theorem empty_search_removes_every_parsed_unit:
  assumes "extract_preamble_postamble raw = (preamble, array_text, postamble)"
    and "\<forall>u \<in> set (split_units array_text). parsed_record loads (unit_obj u) \<noteq> None"
  shows "remove_main loads attr [] raw = preamble @ ''[]'' @ postamble @ final_newline postamble"
proof -
  have "should_remove loads (unit_obj u) attr []" if "u \<in> set (split_units array_text)" for u
    using assms(2) that by (auto simp: should_remove_iff py_contains_empty)
  then have "write_units loads attr [] (split_units array_text) = []"
    by (intro write_units_all_removed) blast
  with assms(1) show ?thesis by (simp add: remove_main_def)
qed


theorem empty_search_removes_every_parsed_unit_witness:
  "extract_preamble_postamble (''['' @ body_leading_comma @ '']'' @ [nl]) = ([], body_leading_comma, [nl]) \<and>
   length (split_units body_leading_comma) = 2 \<and>
   list_all (\<lambda>u. parsed_record json_loads (unit_obj u) \<noteq> None) (split_units body_leading_comma) \<and>
   remove_main json_loads ''_gigachad'' [] (''['' @ body_leading_comma @ '']'' @ [nl]) =
     [] @ ''[]'' @ [nl] @ final_newline [nl]"
proof -
  have h1: "extract_preamble_postamble (''['' @ body_leading_comma @ '']'' @ [nl]) =
      ([], body_leading_comma, [nl])"
    by (simp add: body_leading_comma_def text_eval remove_eval)
  have u: "split_units body_leading_comma =
     [([nl], unlines [''  {'', ''    '' @ quoted ''key'' @ '': '' @ quoted ''a'',
                     ''    , '' @ quoted ''command'' @ '': '' @ quoted ''x'', ''  },''], []),
      ([], unlines [''  {'', ''    '' @ quoted ''key'' @ '': '' @ quoted ''b'', ''  }''], [])]"
    by (simp add: body_leading_comma_def text_eval remove_eval)
  have h3: "length (split_units body_leading_comma) = 2"
    by (simp add: u)
  have h2: "list_all (\<lambda>u. parsed_record json_loads (unit_obj u) \<noteq> None) (split_units body_leading_comma)"
    unfolding u list.pred_inject unit_obj_def fst_conv snd_conv
    by (simp add: parsed_record_def text_eval json_eval remove_eval)
  from h2 have h2': "\<forall>u \<in> set (split_units body_leading_comma). parsed_record json_loads (unit_obj u) \<noteq> None"
    by (simp only: list_all_iff)
  note c = empty_search_removes_every_parsed_unit [OF h1 h2', of "''_gigachad''"]
  from h1 h3 h2 c show ?thesis by (intro conjI)
qed


section \<open>Natural keys and the comparison of sort keys\<close>

text \<open>
  Where \<^verbatim>\<open>natural_key\<close> returns, the keys of two strings that share a prefix without
  decimal digits and continue with digit runs of different value compare as the numbers
  do.
\<close>

lemma split_digits_run:
  assumes "list_all non_decimal p" "d \<noteq> []" "list_all is_decimal d" "r = [] \<or> non_decimal (hd r)"
  shows "split_digits (p @ d @ r) = p # d # split_digits r"
proof -
  from assms(2) obtain x xs where d: "d = x # xs" by (cases d) auto
  with assms(3) have x: "is_decimal x" by simp
  have nd: "\<forall>c \<in> set p. non_decimal c" using assms(1) by (simp add: list_all_iff)
  have dd: "\<forall>c \<in> set d. is_decimal c" using assms(3) by (simp add: list_all_iff)
  have drop: "dropWhile non_decimal (p @ d @ r) = d @ r"
    using nd x d by (simp add: dropWhile_append3 non_decimal_def)
  have take: "takeWhile non_decimal (p @ d @ r) = p"
    using nd x d by (simp add: takeWhile_append2 non_decimal_def)
  have r: "takeWhile is_decimal r = [] \<and> dropWhile is_decimal r = r"
    using assms(4) by (cases r) (auto simp: non_decimal_def)
  have take2: "takeWhile is_decimal (d @ r) = d"
    using dd r by (simp add: takeWhile_append2)
  have drop2: "dropWhile is_decimal (d @ r) = r"
    using dd r by (simp add: dropWhile_append2)
  have "d @ r \<noteq> []" using d by simp
  then show ?thesis
    by (subst split_digits.simps) (simp add: drop take take2 drop2)
qed

lemma natural_piece_run:
  assumes "d \<noteq> []" "list_all is_decimal d"
  shows "natural_piece d = Some (PInt (py_int d))"
proof -
  from assms have "py_isdigit d"
    by (auto simp: py_isdigit_def py_isdigit_char_def list_all_iff)
  with assms show ?thesis by (simp add: natural_piece_def)
qed

lemma natural_key_run:
  assumes "list_all non_decimal p" "d \<noteq> []" "list_all is_decimal d" "r = [] \<or> non_decimal (hd r)"
    and "natural_key (p @ d @ r) = Some k"
  shows "\<exists>x ks. natural_piece p = Some x \<and> k = x # PInt (py_int d) # ks"
proof -
  from assms(5) have "those (natural_piece p # natural_piece d # map natural_piece (split_digits r)) = Some k"
    by (simp add: natural_key_def split_digits_run [OF assms(1-4)])
  then show ?thesis
    by (auto simp: natural_piece_run [OF assms(2,3)] split: option.splits)
qed

lemma natural_order_law:
  assumes "list_all non_decimal p"
    and "d1 \<noteq> []" "list_all is_decimal d1" "r1 = [] \<or> non_decimal (hd r1)"
    and "d2 \<noteq> []" "list_all is_decimal d2" "r2 = [] \<or> non_decimal (hd r2)"
    and "natural_key (p @ d1 @ r1) = Some k1" "natural_key (p @ d2 @ r2) = Some k2"
    and "py_int d1 < py_int d2"
  shows "py_lt (PList k1) (PList k2) = Some True"
proof -
  from natural_key_run [OF assms(1-4) assms(8)]
  obtain x ks1 where 1: "natural_piece p = Some x" "k1 = x # PInt (py_int d1) # ks1" by blast
  from natural_key_run [OF assms(1) assms(5-7) assms(9)]
  obtain y ks2 where 2: "natural_piece p = Some y" "k2 = y # PInt (py_int d2) # ks2" by blast
  from 1 2 have "y = x" by simp
  with 1 2 assms(10) show ?thesis by simp
qed

lemma ctrl_2_before_ctrl_10:
  "natural_key ''ctrl+2'' = Some [PStr ''ctrl+'', PInt 2, PStr []] \<and>
   natural_key ''ctrl+10'' = Some [PStr ''ctrl+'', PInt 10, PStr []] \<and>
   py_lt (PList [PStr ''ctrl+'', PInt 2, PStr []]) (PList [PStr ''ctrl+'', PInt 10, PStr []]) = Some True \<and>
   py_lt (PList [PStr ''ctrl+'', PInt 10, PStr []]) (PList [PStr ''ctrl+'', PInt 2, PStr []]) = Some False"
  by (simp add: text_eval json_eval sort_eval)

text \<open>
  The keys that \<^verbatim>\<open>extract_sort_keys\<close> returns are comparable: \<^verbatim>\<open><\<close> never raises
  \<^verbatim>\<open>TypeError\<close> on two of them, so the sort always completes.
\<close>

lemma natural_piece_text:
  assumes "list_all non_decimal t" "natural_piece t = Some x"
  shows "\<exists>s. x = PStr s"
proof (cases "py_isdigit t")
  case True
  then have "t \<noteq> []" by (simp add: py_isdigit_def)
  with assms(1) have "\<not> list_all is_decimal t"
    by (cases t) (auto simp: non_decimal_def)
  with True assms(2) show ?thesis by (simp add: natural_piece_def)
next
  case False
  with assms(2) show ?thesis by (auto simp: natural_piece_def)
qed

lemma those_pieces_alternating:
  "those (map natural_piece (split_digits s)) = Some ks \<Longrightarrow> alternating ks"
proof (induction s arbitrary: ks rule: split_digits.induct)
  case (1 s)
  show ?case
  proof (cases "dropWhile non_decimal s = []")
    case True
    then have nd: "list_all non_decimal s" by (simp add: list_all_iff)
    have sd: "split_digits s = [s]"
      using True by (subst split_digits.simps) simp
    from "1.prems" have "those [natural_piece s] = Some ks"
      unfolding sd by simp
    then obtain x where x: "natural_piece s = Some x" "ks = [x]"
      by (auto split: option.splits)
    with natural_piece_text [OF nd] show ?thesis by auto
  next
    case False
    let ?p = "takeWhile non_decimal s"
    let ?d = "takeWhile is_decimal (dropWhile non_decimal s)"
    let ?r = "dropWhile is_decimal (dropWhile non_decimal s)"
    have sd: "split_digits s = ?p # ?d # split_digits ?r"
      using False by (subst split_digits.simps) simp
    from "1.prems"
    have "those (natural_piece ?p # natural_piece ?d # map natural_piece (split_digits ?r)) = Some ks"
      unfolding sd by simp
    then obtain x y rest where parts: "natural_piece ?p = Some x" "natural_piece ?d = Some y"
      "those (map natural_piece (split_digits ?r)) = Some rest" "ks = x # y # rest"
      by (auto split: option.splits)
    have "list_all non_decimal ?p"
      using set_takeWhileD [of _ non_decimal s] by (auto simp: list_all_iff)
    with parts(1) natural_piece_text obtain t where x: "x = PStr t" by blast
    from False obtain c cs where c: "dropWhile non_decimal s = c # cs"
      by (cases "dropWhile non_decimal s") auto
    then have "\<not> non_decimal c" using hd_dropWhile [of non_decimal s] by simp
    with c have "?d \<noteq> []" by (simp add: non_decimal_def)
    moreover have "list_all is_decimal ?d"
      using set_takeWhileD [of _ is_decimal "dropWhile non_decimal s"] by (auto simp: list_all_iff)
    ultimately have "natural_piece ?d = Some (PInt (py_int ?d))"
      by (rule natural_piece_run)
    with parts(2) have y: "y = PInt (py_int ?d)" by simp
    from "1.IH" [OF False parts(3)] have "alternating rest" .
    with x y parts(4) show ?thesis by simp
  qed
qed

lemma natural_key_alternating: "natural_key s = Some ks \<Longrightarrow> alternating ks"
  unfolding natural_key_def by (rule those_pieces_alternating)

lemma seq_lt_alternating:
  "alternating a \<Longrightarrow> alternating b \<Longrightarrow> seq_lt a b \<noteq> None"
proof (induction a arbitrary: b rule: alternating.induct)
  case (1 s)
  then show ?case
    by (cases b rule: alternating.cases) auto
next
  case (2 s n rest)
  from "2.prems"(2) show ?case
  proof (cases b rule: alternating.cases)
    case (1 t)
    then show ?thesis by auto
  next
    case (2 t m rest')
    with "2.prems" "2.IH" [of rest'] show ?thesis by auto
  qed auto
qed auto

lemma extract_sort_keys_shape: "is_sort_key (extract_sort_keys loads obj primary)"
  by (auto simp: extract_sort_keys_def is_sort_key_def dest: natural_key_alternating
      split: option.splits json.splits)

lemma alternating_nonempty: "alternating a \<Longrightarrow> a \<noteq> []"
  by (cases a) auto

lemma py_lt_sort_keys:
  assumes "is_sort_key k1" "is_sort_key k2"
  shows "py_lt k1 k2 \<noteq> None"
proof -
  consider (ff) "k1 = failure_key" "k2 = failure_key"
    | (fn) a b c where "k1 = failure_key" "alternating a" "alternating b" "k2 = PTuple [PList a, PList b, PStr c]"
    | (nf) a b c where "k2 = failure_key" "alternating a" "alternating b" "k1 = PTuple [PList a, PList b, PStr c]"
    | (nn) a b c a' b' c' where "alternating a" "alternating b" "k1 = PTuple [PList a, PList b, PStr c]"
        "alternating a'" "alternating b'" "k2 = PTuple [PList a', PList b', PStr c']"
    using assms unfolding is_sort_key_def by blast
  then show ?thesis
  proof cases
    case ff
    then show ?thesis by (simp add: failure_key_def)
  next
    case fn
    with alternating_nonempty [of a] show ?thesis
      by (cases a) (auto simp: failure_key_def)
  next
    case nf
    with alternating_nonempty [of a] show ?thesis
      by (cases a) (auto simp: failure_key_def)
  next
    case nn
    with seq_lt_alternating [of a a'] seq_lt_alternating [of b b'] show ?thesis
      by auto
  qed
qed

lemma sort_keys_comparable:
  "py_lt (extract_sort_keys loads obj primary) (extract_sort_keys loads obj' primary) \<noteq> None"
  by (intro py_lt_sort_keys extract_sort_keys_shape)


section \<open>Sorting: duplicate markers\<close>

lemma mset_insort_by: "mset (insort_by f x ys) = add_mset x (mset ys)"
  by (induction ys) auto

lemma mset_py_sorted: "mset (py_sorted f xs) = mset xs"
  by (induction xs) (auto simp: py_sorted_def mset_insort_by)

lemma length_insort_by: "length (insort_by f x ys) = Suc (length ys)"
  by (induction ys) auto

lemma length_py_sorted: "length (py_sorted f xs) = length xs"
  by (induction xs) (auto simp: py_sorted_def length_insort_by)

lemma length_sort_pieces: "length (sort_pieces loads seen gs) = length gs"
  by (induction gs arbitrary: seen) auto

lemma sort_pieces_nth:
  "i < length gs \<Longrightarrow>
   fst (sort_pieces loads seen gs ! i) =
     fst (gs ! i) @
     (if pair_of loads (gs ! i) \<in> seen \<union> pair_of loads ` set (take i gs)
      then marker_of loads (gs ! i) else []) \<and>
   fst (snd (sort_pieces loads seen gs ! i)) = obj_out (snd (gs ! i))"
proof (induction gs arbitrary: seen i)
  case Nil
  then show ?case by simp
next
  case (Cons g gs)
  obtain comments obj where g: "g = (comments, obj)" by (cases g)
  show ?case
  proof (cases i)
    case 0
    then show ?thesis by (simp add: g pair_of_def marker_of_def)
  next
    case (Suc k)
    with Cons.prems have "k < length gs" by simp
    from Cons.IH [OF this, of "insert (extract_key_when loads obj) seen"] Suc
    show ?thesis by (simp add: g pair_of_def)
  qed
qed

lemma earlier_pair_iff:
  assumes "i < length gs"
  shows "p \<in> pair_of loads ` set (take i gs) \<longleftrightarrow> (\<exists>j<i. pair_of loads (gs ! j) = p)"
proof
  assume "p \<in> pair_of loads ` set (take i gs)"
  then obtain g where g: "g \<in> set (take i gs)" "pair_of loads g = p" by auto
  then obtain j where "j < length (take i gs)" "take i gs ! j = g"
    by (auto simp: in_set_conv_nth)
  with assms have "j < i" "gs ! j = g" by auto
  with g show "\<exists>j<i. pair_of loads (gs ! j) = p" by auto
next
  assume "\<exists>j<i. pair_of loads (gs ! j) = p"
  then obtain j where j: "j < i" "pair_of loads (gs ! j) = p" by auto
  from j(1) assms have "j < length (take i gs)" by simp
  then have "take i gs ! j \<in> set (take i gs)" by (rule nth_mem)
  with j(1) have "gs ! j \<in> set (take i gs)" by simp
  with j show "p \<in> pair_of loads ` set (take i gs)" by auto
qed

text \<open>
  Claim C6. Sorting keeps every group (the sorted sequence is a permutation of the
  groups and one piece is written for each). In sorted order a group is written with the
  duplicate marker appended to its leading comments if and only if an earlier group has
  the same pair of key and condition; so the first group with a pair has no marker and
  every later one has it. The pair of a group is the one \<^verbatim>\<open>extract_key_when\<close>
  returns for its object text.
\<close>

theorem duplicate_marker_on_later_occurrences:
  "mset (sorted_groups loads primary groups) = mset groups \<and>
   length (sort_pieces loads {} (sorted_groups loads primary groups)) = length groups \<and>
   (\<forall>i < length groups.
      fst (sort_pieces loads {} (sorted_groups loads primary groups) ! i) =
        fst (sorted_groups loads primary groups ! i) @
        (if \<exists>j<i. pair_of loads (sorted_groups loads primary groups ! j) =
                    pair_of loads (sorted_groups loads primary groups ! i)
         then marker_of loads (sorted_groups loads primary groups ! i) else []) \<and>
      fst (snd (sort_pieces loads {} (sorted_groups loads primary groups) ! i)) =
        obj_out (snd (sorted_groups loads primary groups ! i)))"
proof (intro conjI allI impI)
  let ?gs = "sorted_groups loads primary groups"
  show m: "mset ?gs = mset groups"
    by (simp add: sorted_groups_def mset_py_sorted)
  have len: "length ?gs = length groups"
    by (simp add: sorted_groups_def length_py_sorted)
  then show "length (sort_pieces loads {} ?gs) = length groups"
    by (simp add: length_sort_pieces)
  fix i assume "i < length groups"
  with len have i: "i < length ?gs" by simp
  from sort_pieces_nth [OF i, of loads "{}"] earlier_pair_iff [OF i, of "pair_of loads (?gs ! i)" loads]
  show "fst (sort_pieces loads {} ?gs ! i) =
        fst (?gs ! i) @
        (if \<exists>j<i. pair_of loads (?gs ! j) = pair_of loads (?gs ! i)
         then marker_of loads (?gs ! i) else [])"
    by simp
  from sort_pieces_nth [OF i, of loads "{}"]
  show "fst (snd (sort_pieces loads {} ?gs ! i)) = obj_out (snd (?gs ! i))"
    by simp
qed


theorem duplicate_marker_on_later_occurrences_witness:
  "(2::nat) < length [group_b_first, group_a, group_b_second] \<and>
   sorted_groups json_loads ''key'' [group_b_first, group_a, group_b_second] =
     [group_a, group_b_first, group_b_second] \<and>
   fst (sort_pieces json_loads {}
          (sorted_groups json_loads ''key'' [group_b_first, group_a, group_b_second]) ! 2) =
     ''  // again'' @ [nl] @ ''// DUPLICATE key: '' @ [sq] @ ''b'' @ [sq] @ '' when: '' @ [sq] @ ''w'' @ [sq, nl]"
proof -
  let ?G = "[group_b_first, group_a, group_b_second]"
  let ?gs = "sorted_groups json_loads ''key'' ?G"
  have h: "(2::nat) < length ?G" by simp
  have s: "?gs = [group_a, group_b_first, group_b_second]"
    by (simp add: group_defs text_eval json_eval sort_eval)
  have "fst (sort_pieces json_loads {} ?gs ! 2) =
        fst (?gs ! 2) @
        (if \<exists>j<2. pair_of json_loads (?gs ! j) = pair_of json_loads (?gs ! 2)
         then marker_of json_loads (?gs ! 2) else [])"
    by (rule duplicate_marker_on_later_occurrences
          [THEN conjunct2, THEN conjunct2, THEN spec, THEN mp, THEN conjunct1, OF h])
  also have "\<exists>j<2. pair_of json_loads (?gs ! j) = pair_of json_loads (?gs ! 2)"
  proof (intro exI conjI)
    show "(1::nat) < 2" by simp
    show "pair_of json_loads (?gs ! 1) = pair_of json_loads (?gs ! 2)"
      unfolding s by (simp add: pair_of_def group_defs text_eval json_eval sort_eval)
  qed
  then have "fst (?gs ! 2) @
        (if \<exists>j<2. pair_of json_loads (?gs ! j) = pair_of json_loads (?gs ! 2)
         then marker_of json_loads (?gs ! 2) else []) =
        fst (?gs ! 2) @ marker_of json_loads (?gs ! 2)"
    by (simp only: if_True)
  also have "\<dots> = ''  // again'' @ [nl] @ ''// DUPLICATE key: '' @ [sq] @ ''b'' @ [sq] @ '' when: '' @ [sq] @ ''w'' @ [sq, nl]"
    unfolding s by (simp add: marker_of_def pair_of_def group_defs text_eval json_eval sort_eval)
  finally show ?thesis using h s by (intro conjI)
qed

text \<open>
  The leading comments written for the three groups above: only the later of the two
  groups with the same pair carries the marker.
\<close>

lemma first_occurrences_unmarked:
  "map fst (sort_pieces json_loads {} (sorted_groups json_loads ''key'' [group_b_first, group_a, group_b_second])) =
     [[], [nl], ''  // again'' @ [nl] @ ''// DUPLICATE key: '' @ [sq] @ ''b'' @ [sq] @ '' when: '' @ [sq] @ ''w'' @ [sq, nl]]"
  by (simp add: group_defs text_eval json_eval sort_eval)


section \<open>Removal: text after the last unit\<close>

text \<open>
  Claim C2. Removal with a search string that matches no unit is to give back the array
  portion byte for byte. \<^verbatim>\<open>split_units\<close> leaves its outer loop at the
  \<^verbatim>\<open>break\<close> with the lines gathered last still in \<^verbatim>\<open>comments\<close>, and these
  are never written. In the document below the unit has no attribute \<^verbatim>\<open>command\<close>,
  so nothing matches; the first line of the block comment is taken as trailing text of
  the unit, the second line is not, and it is missing from the output, which no longer
  closes the comment.
\<close>

theorem remove_loses_text_after_last_unit:
  "remove_main json_loads ''command'' ''zzz'' doc_block_comment =
     unlines
       [''['',
        ''  {'',
        ''    '' @ quoted ''key'' @ '': '' @ quoted ''a'',
        ''  }'',
        ''  /* end'',
        '']'']"
  by (simp add: doc_block_comment_def text_eval json_eval remove_eval)

section \<open>Sorting: concrete runs\<close>

text \<open>
  Claim C5. Of two strings that share a prefix without digits and differ in the digit
  run that follows, the one with the smaller number is to sort first, so a unit with the
  key \<^verbatim>\<open>a2\<close> belongs before a unit whose key is \<^verbatim>\<open>a10\<close> followed by a
  superscript two. \<^verbatim>\<open>natural_key\<close> tests each piece with \<^verbatim>\<open>isdigit()\<close>, which
  holds of the superscript two, and then calls \<^verbatim>\<open>int()\<close>, which rejects it; the
  exception is caught in \<^verbatim>\<open>extract_sort_keys\<close> and the unit receives the key of a
  unit that failed to parse. The sorted document therefore has the second unit first.
\<close>

theorem superscript_digit_breaks_natural_order:
  "natural_key ''a2'' = Some [PStr ''a'', PInt 2, PStr []] \<and>
   natural_key (''a10'' @ [CHR 0xB2]) = None \<and>
   sort_main json_loads ''key'' doc_superscript =
     unlines
       [''[  {'',
        ''    '' @ quoted ''key'' @ '': '' @ quoted (''a10'' @ [CHR 0xB2]),
        ''  },'',
        [],
        ''  {'',
        ''    '' @ quoted ''key'' @ '': '' @ quoted ''a2'',
        ''  }'',
        '']'']"
  by (simp add: doc_superscript_def text_eval json_eval sort_eval)

text \<open>
  Claim C7. A unit whose object text fails to parse is to stay out of the duplicate
  logic. \<^verbatim>\<open>extract_key_when\<close> answers the pair of two empty strings for such a
  unit, and \<^verbatim>\<open>main\<close> looks this pair up in \<^verbatim>\<open>seen\<close> and adds it like any
  other. Of the two unparsed units below the second is written with a duplicate marker.
\<close>

theorem unparsed_unit_marked_duplicate:
  "sort_main json_loads ''key'' doc_two_unparsed =
     unlines
       [''['',
        ''  {'',
        ''    '' @ quoted ''key'' @ '' '' @ quoted ''a'',
        ''  },'',
        ''// DUPLICATE key: '' @ [sq, sq] @ '' when: '' @ [sq, sq],
        ''  {'',
        ''    '' @ quoted ''key'' @ '' '' @ quoted ''b'',
        ''  }'',
        '']'']"
  by (simp add: doc_two_unparsed_def text_eval json_eval sort_eval)

text \<open>
  Claim C8. Every unit but the last is to end with exactly one comma after the closing
  brace of its object. \<^verbatim>\<open>main\<close> first deletes the comma that follows the brace and
  then asks \<^verbatim>\<open>object_has_trailing_comma\<close> whether to write one. That function
  walks the lines in reverse, so once it has found the line of the closing brace it
  looks at the lines before it; a member written with a leading comma makes it answer
  yes. In the output below no comma separates the two objects.
\<close>

theorem leading_comma_suppresses_separator:
  "sort_main json_loads ''key'' doc_leading_comma =
     unlines
       [''['',
        ''  {'',
        ''    '' @ quoted ''key'' @ '': '' @ quoted ''a'',
        ''    , '' @ quoted ''command'' @ '': '' @ quoted ''x'',
        ''  }'',
        ''  {'',
        ''    '' @ quoted ''key'' @ '': '' @ quoted ''b'',
        ''  }'',
        '']'']"
  by (simp add: doc_leading_comma_def text_eval json_eval sort_eval)

text \<open>
  Claim C9. Sorting a sorted document again with the same primary field is to change
  nothing when no two records share a pair of key and condition. The two records below
  have distinct keys. The comma after the first closing brace is deleted and a new one
  is written at the end of the object text, behind the line comment; the second run
  finds no comma after the brace and writes another one.
\<close>

theorem sort_twice_differs_from_sort_once:
  "sort_main json_loads ''key'' doc_line_comment = doc_line_comment_once \<and>
   sort_main json_loads ''key'' doc_line_comment_once = doc_line_comment_twice \<and>
   doc_line_comment_twice \<noteq> doc_line_comment_once"
  by (simp add: doc_line_comment_def doc_line_comment_once_def doc_line_comment_twice_def
      text_eval json_eval sort_eval)

end
